theory Spec2Isabelle
  imports Complex_Main "HOL-Library.Sublist"
begin

section \<open>Python strings and their helpers\<close>

text \<open>
  A Python \<^verbatim>\<open>str\<close> is modelled as a \<^typ>\<open>string\<close>, each \<^typ>\<open>char\<close> standing for
  one code point in the range 0..255. On that range the character classes below are
  exactly those of CPython: \<^verbatim>\<open>str.isspace\<close>, \<^verbatim>\<open>str.strip\<close> and the regex class
  \<^verbatim>\<open>\s\<close> agree on the twelve code points of \<open>isspace\<close>, \<^verbatim>\<open>\d\<close> matches the ten
  ASCII digits only, and \<^verbatim>\<open>str.isupper\<close> holds for A-Z and the upper-case letters of
  the Latin-1 supplement. Exceptions are values of \<open>py_error\<close>.
\<close>

datatype py_error = IndexError | ZeroDivisionError | KeyError | TypeError | PdfError

definition newline :: char where
  "newline = CHR 0x0A"

definition isspace :: "char \<Rightarrow> bool" where
  "isspace c = (let n = (of_char c :: nat) in
     (9 \<le> n \<and> n \<le> 13) \<or> (28 \<le> n \<and> n \<le> 32) \<or> n = 133 \<or> n = 160)"

definition isdigit :: "char \<Rightarrow> bool" where
  "isdigit c = (let n = (of_char c :: nat) in 48 \<le> n \<and> n \<le> 57)"

definition isAZ :: "char \<Rightarrow> bool" where
  "isAZ c = (let n = (of_char c :: nat) in 65 \<le> n \<and> n \<le> 90)"

definition isupper :: "char \<Rightarrow> bool" where
  "isupper c = (let n = (of_char c :: nat) in
     (65 \<le> n \<and> n \<le> 90) \<or> (192 \<le> n \<and> n \<le> 214) \<or> (216 \<le> n \<and> n \<le> 222))"

definition lower_char :: "char \<Rightarrow> char" where
  "lower_char c = (if isupper c then char_of ((of_char c :: nat) + 32) else c)"

definition lower :: "string \<Rightarrow> string" where
  "lower s = map lower_char s"

definition strip :: "string \<Rightarrow> string" where
  "strip s = rev (dropWhile isspace (rev (dropWhile isspace s)))"

fun join :: "string \<Rightarrow> string list \<Rightarrow> string" where
  "join sep [] = []"
| "join sep [x] = x"
| "join sep (x # y # ys) = x @ sep @ join sep (y # ys)"

text \<open>\<^verbatim>\<open>s.split()\<close>: the maximal runs of non-whitespace characters, in order.\<close>

fun split_ws_aux :: "string \<Rightarrow> string \<Rightarrow> string list" where
  "split_ws_aux cur [] = (if cur = [] then [] else [cur])"
| "split_ws_aux cur (c # cs) =
     (if isspace c then (if cur = [] then split_ws_aux [] cs else cur # split_ws_aux [] cs)
      else split_ws_aux (cur @ [c]) cs)"

definition split_ws :: "string \<Rightarrow> string list" where
  "split_ws s = split_ws_aux [] s"

text \<open>\<^verbatim>\<open>s.split('\n\n')\<close>: cut at each blank-line separator, left to right, keeping
  empty pieces.\<close>

fun split_nn_aux :: "string \<Rightarrow> string \<Rightarrow> string list" where
  "split_nn_aux cur [] = [cur]"
| "split_nn_aux cur [c] = [cur @ [c]]"
| "split_nn_aux cur (c # d # cs) =
     (if c = newline \<and> d = newline then cur # split_nn_aux [] cs
      else split_nn_aux (cur @ [c]) (d # cs))"

definition split_nn :: "string \<Rightarrow> string list" where
  "split_nn s = split_nn_aux [] s"

text \<open>\<^verbatim>\<open>needle in haystack\<close> on strings.\<close>

fun contains :: "string \<Rightarrow> string \<Rightarrow> bool" where
  "contains needle [] = (needle = [])"
| "contains needle (c # cs) = (prefix needle (c # cs) \<or> contains needle cs)"

text \<open>\<^verbatim>\<open>str(n)\<close> for an integer, as the f-strings of the source print it.\<close>

fun str_nat :: "nat \<Rightarrow> string" where
  "str_nat n = (if n < 10 then [''0123456789'' ! n]
                else str_nat (n div 10) @ [''0123456789'' ! (n mod 10)])"

declare str_nat.simps [simp del]

definition str_int :: "int \<Rightarrow> string" where
  "str_int i = (if i < 0 then ''-'' @ str_nat (nat (- i)) else str_nat (nat i))"

text \<open>\<^verbatim>\<open>xs[i]\<close> on a list: a negative index counts from the end, and an index outside
  the list raises.\<close>

definition py_getitem :: "'a list \<Rightarrow> int \<Rightarrow> py_error + 'a" where
  "py_getitem xs i =
     (if 0 \<le> i \<and> i < int (length xs) then Inr (xs ! nat i)
      else if i < 0 \<and> - int (length xs) \<le> i then Inr (xs ! nat (int (length xs) + i))
      else Inl IndexError)"

text \<open>\<^verbatim>\<open>xs[:n]\<close>: a negative bound counts from the end.\<close>

definition py_take :: "int \<Rightarrow> 'a list \<Rightarrow> 'a list" where
  "py_take n xs = (if n < 0 then take (nat (int (length xs) + n)) xs else take (nat n) xs)"

text \<open>\<^verbatim>\<open>range(a, b)\<close>.\<close>

definition py_range :: "int \<Rightarrow> int \<Rightarrow> int list" where
  "py_range a b = [a..b - 1]"

text \<open>\<^verbatim>\<open>a / b\<close> on integers. The quotient is compared with \<^verbatim>\<open>0.6\<close> only for texts of
  at most 200 characters; there a quotient \<open>c / n\<close> differs from \<open>3 / 5\<close> by at least
  \<open>1 / (5 * n)\<close> unless it is equal to it, far more than the rounding of a double, so the
  comparison of the floats has the outcome of the comparison of the exact values.\<close>

definition py_truediv :: "nat \<Rightarrow> nat \<Rightarrow> py_error + real" where
  "py_truediv a b = (if b = 0 then Inl ZeroDivisionError else Inr (real a / real b))"

section \<open>Regular expressions of the source\<close>

text \<open>
  Every pattern of the source is a sequence of single-character classes, each under a
  quantifier, with at most a final \<^verbatim>\<open>$\<close>. \<open>Rep p lo hi\<close> is the class \<open>p\<close> repeated at
  least \<open>lo\<close> and at most \<open>hi\<close> times (\<open>None\<close>: unbounded). \<open>re_match_len\<close> is the
  backtracking search of the \<^verbatim>\<open>re\<close> module anchored at the start of the string (what
  \<^verbatim>\<open>re.match\<close> does, so a leading \<^verbatim>\<open>^\<close> adds nothing): each quantifier first takes
  as many characters as it can and gives them back one by one while the rest of the
  pattern fails. The result is the length of the match. \<^verbatim>\<open>$\<close> holds at the end of the
  string and before a newline that ends the string.
\<close>

datatype atom = Rep "char \<Rightarrow> bool" nat "nat option" | Dollar

type_synonym regex = "atom list"

fun first_some :: "('a \<Rightarrow> 'b option) \<Rightarrow> 'a list \<Rightarrow> 'b option" where
  "first_some f [] = None"
| "first_some f (x # xs) = (case f x of Some y \<Rightarrow> Some y | None \<Rightarrow> first_some f xs)"

definition rep_counts :: "(char \<Rightarrow> bool) \<Rightarrow> nat \<Rightarrow> nat option \<Rightarrow> string \<Rightarrow> nat list" where
  "rep_counts p lo hi s =
     (let run = length (takeWhile p s);
          mx = (case hi of None \<Rightarrow> run | Some h \<Rightarrow> min h run)
      in rev [lo..<Suc mx])"

fun re_match_len :: "regex \<Rightarrow> string \<Rightarrow> nat option" where
  "re_match_len [] s = Some 0"
| "re_match_len (Dollar # as) s =
     (if s = [] \<or> s = [newline] then re_match_len as s else None)"
| "re_match_len (Rep p lo hi # as) s =
     first_some (\<lambda>n. map_option ((+) n) (re_match_len as (drop n s))) (rep_counts p lo hi s)"

definition re_match :: "regex \<Rightarrow> string \<Rightarrow> bool" where
  "re_match pat s = (re_match_len pat s \<noteq> None)"

text \<open>\<^verbatim>\<open>re.search\<close>: a match starting at some position of the string.\<close>

fun re_search :: "regex \<Rightarrow> string \<Rightarrow> bool" where
  "re_search pat [] = re_match pat []"
| "re_search pat (c # cs) = (re_match pat (c # cs) \<or> re_search pat cs)"

text \<open>\<^verbatim>\<open>re.split\<close> for a pattern that matches no empty string: the text between the
  successive leftmost matches. A position where the pattern does not match (or matches
  nothing) joins the current piece.\<close>

fun re_split_aux :: "regex \<Rightarrow> string \<Rightarrow> string \<Rightarrow> string list" where
  "re_split_aux pat cur [] = [cur]"
| "re_split_aux pat cur (c # cs) =
     (case re_match_len pat (c # cs) of
        Some (Suc n) \<Rightarrow> cur # re_split_aux pat [] (drop n cs)
      | _ \<Rightarrow> re_split_aux pat (cur @ [c]) cs)"

definition re_split :: "regex \<Rightarrow> string \<Rightarrow> string list" where
  "re_split pat s = re_split_aux pat [] s"

definition exactly_one :: "(char \<Rightarrow> bool) \<Rightarrow> atom" where
  "exactly_one p = Rep p 1 (Some 1)"

definition one_or_more :: "(char \<Rightarrow> bool) \<Rightarrow> atom" where
  "one_or_more p = Rep p 1 None"

definition zero_or_more :: "(char \<Rightarrow> bool) \<Rightarrow> atom" where
  "zero_or_more p = Rep p 0 None"

definition optional :: "(char \<Rightarrow> bool) \<Rightarrow> atom" where
  "optional p = Rep p 0 (Some 1)"

definition at_least :: "nat \<Rightarrow> (char \<Rightarrow> bool) \<Rightarrow> atom" where
  "at_least k p = Rep p k None"

definition is_char :: "char \<Rightarrow> char \<Rightarrow> bool" where
  "is_char c d = (d = c)"

definition lit :: "string \<Rightarrow> regex" where
  "lit s = map (\<lambda>c. exactly_one (is_char c)) s"

section \<open>Sections and the heading heuristic\<close>

text \<open>
  The dictionaries of the source have fixed keys. An outline entry has \<^verbatim>\<open>title\<close>,
  \<^verbatim>\<open>page\<close> and \<^verbatim>\<open>level\<close>; a section has \<^verbatim>\<open>title\<close>, \<^verbatim>\<open>level\<close>, \<^verbatim>\<open>content\<close>
  and, on the outline path only, \<^verbatim>\<open>start_page\<close> and \<^verbatim>\<open>end_page\<close>: an absent key is
  \<open>None\<close>. The page of an entry is the value that the PDF library returned: an integer,
  or Python's \<^verbatim>\<open>None\<close> (here \<open>None\<close>) where the library does not find the page.
\<close>

record titled =
  title :: string
  level :: nat

record toc_entry = titled +
  page :: "int option"

record pdf_section = titled +
  start_page :: "int option"
  end_page :: "int option"
  content :: string

text \<open>
  The PDF library is outside the program. What the program reads from it is a record:
  the outline (reading it may raise), the text that \<^verbatim>\<open>extract_text\<close> returns for
  each page, and the page number of an outline item. Resolving an item returns an integer
  (a page index; some versions of the library return -1 for a page they do not find),
  returns \<^verbatim>\<open>None\<close>, or raises. An outline is a list whose elements are items or nested
  lists.
\<close>

datatype destination = Destination string nat

fun dest_title :: "destination \<Rightarrow> string" where
  "dest_title (Destination t ref) = t"

datatype outline_node = Item destination | Nested "outline_node list"

record pdf_reader =
  outline :: "py_error + outline_node list"
  pages :: "string list"
  get_destination_page_number :: "destination \<Rightarrow> py_error + int option"

definition total_pages :: "pdf_reader \<Rightarrow> int" where
  "total_pages self = int (length (pages self))"

definition extract_text_by_page :: "pdf_reader \<Rightarrow> string list" where
  "extract_text_by_page self = map (\<lambda>page_num. pages self ! page_num) [0..<nat (total_pages self)]"

text \<open>The five patterns of \<^verbatim>\<open>_is_likely_heading\<close>, in the order of the source:
  \<^verbatim>\<open>^\d+\.?\s+[A-Z]\<close>, \<^verbatim>\<open>^[A-Z][A-Z\s]{3,}$\<close>, \<^verbatim>\<open>^Chapter\s+\d+\<close>,
  \<^verbatim>\<open>^Section\s+\d+\<close> and \<^verbatim>\<open>^[IVXLCDM]+\.\s+[A-Z]\<close>.\<close>

definition isroman :: "char \<Rightarrow> bool" where
  "isroman c = (c \<in> set ''IVXLCDM'')"

definition heading_patterns :: "regex list" where
  "heading_patterns =
     [[one_or_more isdigit, optional (is_char CHR ''.''), one_or_more isspace, exactly_one isAZ],
      [exactly_one isAZ, at_least 3 (\<lambda>c. isAZ c \<or> isspace c), Dollar],
      lit ''Chapter'' @ [one_or_more isspace, one_or_more isdigit],
      lit ''Section'' @ [one_or_more isspace, one_or_more isdigit],
      [one_or_more isroman, exactly_one (is_char CHR ''.''), one_or_more isspace, exactly_one isAZ]]"

definition is_likely_heading :: "string \<Rightarrow> py_error + bool" where
  "is_likely_heading text =
     (if length text > 200 then Inr False
      else if list_ex (\<lambda>pattern. re_match pattern (strip text)) heading_patterns then Inr True
      else
        let words = split_ws text in
        if length words \<le> 10 then
          (case py_truediv (length (filter isupper text)) (max (length text) 1) of
             Inl e \<Rightarrow> Inl e
           | Inr uppercase_ratio \<Rightarrow> if uppercase_ratio > 6 / 10 then Inr True else Inr False)
        else Inr False)"

section \<open>Paragraph-based splitting\<close>

text \<open>The paragraph separator \<^verbatim>\<open>\n\s*\n+\<close> of \<^verbatim>\<open>split_by_paragraphs\<close>.\<close>

definition paragraph_sep :: regex where
  "paragraph_sep = [exactly_one (is_char newline), zero_or_more isspace, one_or_more (is_char newline)]"

text \<open>The local variables of the loop of \<^verbatim>\<open>split_by_paragraphs\<close>.\<close>

record para_state =
  sections :: "pdf_section list"
  section_num :: nat
  current_section :: "string list"
  current_title :: "string option"

text \<open>\<^verbatim>\<open>current_title or f"Section {section_num}"\<close>: the synthesized title stands in
  for \<^verbatim>\<open>None\<close> and for an empty title.\<close>

definition title_or_default :: "string option \<Rightarrow> nat \<Rightarrow> string" where
  "title_or_default t n =
     (case t of None \<Rightarrow> ''Section '' @ str_nat n
      | Some s \<Rightarrow> if s = [] then ''Section '' @ str_nat n else s)"

definition flush_section :: "para_state \<Rightarrow> pdf_section" where
  "flush_section st =
     \<lparr>title = title_or_default (current_title st) (section_num st), level = 0,
      start_page = None, end_page = None,
      content = strip (join [newline, newline] (current_section st))\<rparr>"

fun para_loop :: "string list \<Rightarrow> para_state \<Rightarrow> py_error + para_state" where
  "para_loop [] st = Inr st"
| "para_loop (p # ps) st =
     (let para = strip p in
      if para = [] then para_loop ps st
      else
        (case is_likely_heading para of
           Inl e \<Rightarrow> Inl e
         | Inr is_heading \<Rightarrow>
             if is_heading then
               (let st' = (if current_section st \<noteq> []
                           then st\<lparr>sections := sections st @ [flush_section st],
                                   section_num := section_num st + 1\<rparr>
                           else st)
                in para_loop ps (st'\<lparr>current_title := Some (take 100 para), current_section := []\<rparr>))
             else para_loop ps (st\<lparr>current_section := current_section st @ [para]\<rparr>)))"

definition para_init :: para_state where
  "para_init = \<lparr>sections = [], section_num = 1, current_section = [], current_title = None\<rparr>"

definition split_by_paragraphs :: "pdf_reader \<Rightarrow> py_error + pdf_section list" where
  "split_by_paragraphs self =
     (let pages_text = extract_text_by_page self;
          full_text = join [newline, newline] pages_text;
          paragraphs = re_split paragraph_sep full_text
      in case para_loop paragraphs para_init of
           Inl e \<Rightarrow> Inl e
         | Inr st \<Rightarrow>
             Inr (if current_section st \<noteq> [] then sections st @ [flush_section st]
                  else sections st))"

section \<open>Outline-based splitting\<close>

text \<open>\<^verbatim>\<open>_parse_outline\<close>: a nested list is parsed one level deeper; an item whose
  resolution raises is reported and left out, and every other item is kept with the value
  that the resolution returned.\<close>

fun parse_outline :: "pdf_reader \<Rightarrow> outline_node list \<Rightarrow> nat \<Rightarrow> toc_entry list"
  and parse_item :: "pdf_reader \<Rightarrow> outline_node \<Rightarrow> nat \<Rightarrow> toc_entry list" where
  "parse_outline self [] lvl = []"
| "parse_outline self (item # outlines) lvl =
     parse_item self item lvl @ parse_outline self outlines lvl"
| "parse_item self (Nested items) lvl = parse_outline self items (lvl + 1)"
| "parse_item self (Item d) lvl =
     (case get_destination_page_number self d of
        Inl e \<Rightarrow> []
      | Inr page_num \<Rightarrow> [\<lparr>title = dest_title d, level = lvl, page = page_num\<rparr>])"

definition extract_toc :: "pdf_reader \<Rightarrow> toc_entry list" where
  "extract_toc self =
     (case outline self of
        Inl e \<Rightarrow> []
      | Inr outlines \<Rightarrow> if outlines \<noteq> [] then parse_outline self outlines 0 else [])"

text \<open>The inner loop of \<^verbatim>\<open>split_by_toc\<close> over \<^verbatim>\<open>range(start_page, end_page)\<close>.\<close>

fun collect_pages :: "string list \<Rightarrow> int list \<Rightarrow> py_error + string list" where
  "collect_pages pages_text [] = Inr []"
| "collect_pages pages_text (page_num # rest) =
     (if page_num < int (length pages_text) then
        (case py_getitem pages_text page_num of
           Inl e \<Rightarrow> Inl e
         | Inr t \<Rightarrow>
             (case collect_pages pages_text rest of
                Inl e \<Rightarrow> Inl e
              | Inr ts \<Rightarrow> Inr (t # ts)))
      else collect_pages pages_text rest)"

text \<open>The outer loop: \<open>item\<close> is \<^verbatim>\<open>toc[i]\<close> and the head of \<open>rest\<close>, when there is
  one, is \<^verbatim>\<open>toc[i + 1]\<close>. \<^verbatim>\<open>range(start_page, end_page)\<close> raises \<^verbatim>\<open>TypeError\<close> where
  one of the two is \<^verbatim>\<open>None\<close>.\<close>

fun toc_loop :: "string list \<Rightarrow> int \<Rightarrow> toc_entry list \<Rightarrow> py_error + pdf_section list" where
  "toc_loop pages_text n_pages [] = Inr []"
| "toc_loop pages_text n_pages (item # rest) =
     (let start_page' = page item;
          end_page' = (case rest of [] \<Rightarrow> Some n_pages | nxt # _ \<Rightarrow> page nxt)
      in case start_page' of
           None \<Rightarrow> Inl TypeError
         | Some s \<Rightarrow>
             (case end_page' of
                None \<Rightarrow> Inl TypeError
              | Some e \<Rightarrow>
                  (case collect_pages pages_text (py_range s e) of
                     Inl err \<Rightarrow> Inl err
                   | Inr content' \<Rightarrow>
                       (case toc_loop pages_text n_pages rest of
                          Inl err \<Rightarrow> Inl err
                        | Inr secs \<Rightarrow>
                            Inr (\<lparr>title = title item, level = level item,
                                  start_page = Some (s + 1), end_page = Some e,
                                  content = strip (join [newline, newline] content')\<rparr> # secs)))))"

definition split_by_toc :: "pdf_reader \<Rightarrow> py_error + pdf_section list" where
  "split_by_toc self =
     (let toc = extract_toc self in
      if toc = [] then split_by_paragraphs self
      else toc_loop (extract_text_by_page self) (total_pages self) toc)"
section \<open>Key sentences and the document summary\<close>

text \<open>The sentence separator \<^verbatim>\<open>[.!?]+\s+\<close> and the pattern \<^verbatim>\<open>\d+\<close> of
  \<^verbatim>\<open>_extract_key_sentences\<close>.\<close>

definition isterminator :: "char \<Rightarrow> bool" where
  "isterminator c = (c \<in> set ''.!?'')"

definition sentence_sep :: regex where
  "sentence_sep = [one_or_more isterminator, one_or_more isspace]"

definition digits :: regex where
  "digits = [one_or_more isdigit]"

definition double_quote :: char where
  "double_quote = CHR 0x22"

definition single_quote :: char where
  "single_quote = CHR 0x27"

definition important_words :: "string list" where
  "important_words =
     [''result'', ''conclusion'', ''found'', ''significant'', ''important'',
      ''demonstrate'', ''show'', ''indicate'', ''suggest'', ''recommend'',
      ''key'', ''main'', ''primary'', ''critical'', ''essential'']"

text \<open>The body of the scoring loop, for one sentence.\<close>

definition sentence_score :: "string \<Rightarrow> int" where
  "sentence_score sentence =
     (if re_search digits sentence then 2 else 0) +
     (if double_quote \<in> set sentence \<or> single_quote \<in> set sentence then 1 else 0) +
     (\<Sum>word\<leftarrow>important_words. if contains word (lower sentence) then 1 else 0) +
     (if 50 < length sentence \<and> length sentence < 200 then 1 else 0)"

text \<open>\<^verbatim>\<open>list.sort(reverse=True, key=...)\<close> is stable: elements with equal keys keep their
  order. That fixes its result: it is the stable sort by the negated key, which
  \<open>sort_key\<close> (an insertion sort) computes.\<close>

definition extract_key_sentences :: "string \<Rightarrow> int \<Rightarrow> string list" where
  "extract_key_sentences text max_sentences =
     (let sentences = re_split sentence_sep text;
          sentences = map strip (filter (\<lambda>s. 20 < length (strip s)) sentences)
      in if sentences = [] then []
         else
           let scored_sentences = map (\<lambda>sentence. (sentence_score sentence, sentence)) (take 50 sentences);
               scored_sentences = sort_key (\<lambda>x. - fst x) scored_sentences
           in map snd (filter (\<lambda>s. 0 < fst s) (py_take max_sentences scored_sentences)))"

text \<open>\<^verbatim>\<open>create_document_summary\<close>. A section with a \<^verbatim>\<open>start_page\<close> is asked for its
  \<^verbatim>\<open>end_page\<close>, which raises \<^verbatim>\<open>KeyError\<close> where that key is absent.\<close>

definition page_suffix :: "pdf_section \<Rightarrow> string \<Rightarrow> string \<Rightarrow> py_error + string" where
  "page_suffix sec opening closing =
     (case start_page sec of
        None \<Rightarrow> Inr []
      | Some s \<Rightarrow>
          (case end_page sec of
             None \<Rightarrow> Inl KeyError
           | Some e \<Rightarrow> Inr (opening @ str_int s @ ''-'' @ str_int e @ closing)))"

definition toc_line :: "nat \<Rightarrow> pdf_section \<Rightarrow> py_error + string list" where
  "toc_line i sec =
     (let indent = concat (replicate (level sec) ''  '') in
      case page_suffix sec '' [p.'' '']'' of
        Inl e \<Rightarrow> Inl e
      | Inr pages' \<Rightarrow> Inr [indent @ str_nat i @ ''. '' @ title sec @ pages'])"

definition section_block :: "nat \<Rightarrow> pdf_section \<Rightarrow> py_error + string list" where
  "section_block i sec =
     (case page_suffix sec ''**Location:** Pages '' [] of
        Inl e \<Rightarrow> Inl e
      | Inr location \<Rightarrow>
          let word_count = length (split_ws (content sec));
              char_count = length (content sec);
              paragraphs = filter (\<lambda>p. p \<noteq> []) (map strip (split_nn (content sec)));
              key_sentences = extract_key_sentences (content sec) 3
          in Inr ([''### Section '' @ str_nat i @ '': '' @ title sec] @
                  (if start_page sec \<noteq> None then [location] else []) @
                  [''**Length:** '' @ str_nat word_count @ '' words, '' @ str_nat char_count @ '' characters''] @
                  (case paragraphs of
                     [] \<Rightarrow> []
                   | p # _ \<Rightarrow>
                       [''**Preview:** '' @ take 300 p @ (if 300 < length p then ''...'' else [])]) @
                  (if key_sentences \<noteq> [] then ''**Key Points:**'' # map (\<lambda>sentence. ''- '' @ sentence) key_sentences
                   else []) @
                  [[]]))"

text \<open>\<^verbatim>\<open>for i, section in enumerate(sections, i)\<close>, appending the lines of each section.\<close>

fun enumerate_lines ::
  "(nat \<Rightarrow> pdf_section \<Rightarrow> py_error + string list) \<Rightarrow> nat \<Rightarrow> pdf_section list \<Rightarrow> py_error + string list" where
  "enumerate_lines f i [] = Inr []"
| "enumerate_lines f i (sec # secs) =
     (case f i sec of
        Inl e \<Rightarrow> Inl e
      | Inr ls \<Rightarrow>
          (case enumerate_lines f (i + 1) secs of
             Inl e \<Rightarrow> Inl e
           | Inr rest \<Rightarrow> Inr (ls @ rest)))"

text \<open>In the last line of the summary the source file has the three characters U+00E2,
  U+2020 and U+2019. Each is one character here; the two beyond code point 255 are
  written with their Windows-1252 codes 0x86 and 0x92. The line is only appended to the
  output.\<close>

definition how_to_use :: "string list" where
  "how_to_use =
     [[newline] @ ''## HOW TO USE THIS DOCUMENT'',
      ''This summary provides the structure and overview of the full document.'',
      ''Each section has been extracted to a separate file in the output directory.'',
      ''To analyze specific sections in detail, refer to the individual section files.'',
      ''Section numbers correspond to the filenames (e.g., Section 1 '' @
        [CHR 0xE2, CHR 0x86, CHR 0x92] @
        '' 01_*.txt)'']"

definition create_document_summary :: "pdf_reader \<Rightarrow> pdf_section list \<Rightarrow> py_error + string" where
  "create_document_summary self sections' =
     (case enumerate_lines toc_line 1 sections' of
        Inl e \<Rightarrow> Inl e
      | Inr toc_lines \<Rightarrow>
          (case enumerate_lines section_block 1 sections' of
             Inl e \<Rightarrow> Inl e
           | Inr blocks \<Rightarrow>
               Inr (join [newline]
                 ([''# DOCUMENT STRUCTURE SUMMARY'',
                   ''Total Sections: '' @ str_nat (length sections'),
                   ''Total Pages: '' @ str_int (total_pages self) @ [newline],
                   ''## TABLE OF CONTENTS''] @
                  toc_lines @
                  [[newline] @ ''## SECTION SUMMARIES'' @ [newline]] @
                  blocks @
                  how_to_use))))"

section \<open>Notions used in the statements\<close>

text \<open>The end page of section \<open>i\<close>: the page of the next entry, or the number of pages \<open>n\<close>
  for the last entry.\<close>

definition next_page :: "toc_entry list \<Rightarrow> int \<Rightarrow> nat \<Rightarrow> int option" where
  "next_page toc n i = (if i + 1 < length toc then page (toc ! (i + 1)) else Some n)"

text \<open>The element \<^verbatim>\<open>xs[k]\<close> for an index inside the list, and the texts that the inner
  loop collects for the range from \<open>a\<close> to \<open>b\<close>: those of the indices below the number
  of pages. For \<open>0 \<le> a\<close> these are the pages \<open>a\<close>, ..., \<open>b - 1\<close> that exist.\<close>

definition py_nth :: "'a list \<Rightarrow> int \<Rightarrow> 'a" where
  "py_nth xs k = (if 0 \<le> k then xs ! nat k else xs ! nat (int (length xs) + k))"

definition pages_between :: "string list \<Rightarrow> int \<Rightarrow> int \<Rightarrow> string list" where
  "pages_between pt a b = map (py_nth pt) (filter (\<lambda>k. k < int (length pt)) (py_range a b))"

text \<open>The condition under which the loop reads the range of an entry without an error:
  both ends are integers, and the range is empty or does not start more than the number
  of pages below 0. \<open>toc_readable\<close> says so of every entry of the outline.\<close>

definition range_readable :: "nat \<Rightarrow> int option \<Rightarrow> int option \<Rightarrow> bool" where
  "range_readable len a b =
     (case a of None \<Rightarrow> False
      | Some s \<Rightarrow> (case b of None \<Rightarrow> False | Some e \<Rightarrow> e \<le> s \<or> - int len \<le> s))"

definition toc_readable :: "pdf_reader \<Rightarrow> bool" where
  "toc_readable self =
     list_all (\<lambda>i. range_readable (length (pages self)) (page (extract_toc self ! i))
                      (next_page (extract_toc self) (total_pages self) i))
       [0..<length (extract_toc self)]"


text \<open>The invariant \<^verbatim>\<open>end_page >= start_page\<close> of a section that has both fields.\<close>

definition page_range_ok :: "pdf_section \<Rightarrow> bool" where
  "page_range_ok s =
     (case start_page s of None \<Rightarrow> True
      | Some a \<Rightarrow> (case end_page s of None \<Rightarrow> True | Some b \<Rightarrow> a \<le> b))"

text \<open>The paragraph is classified as a heading.\<close>

definition is_heading :: "string \<Rightarrow> bool" where
  "is_heading t = (is_likely_heading t = Inr True)"

text \<open>The paragraphs that \<^verbatim>\<open>split_by_paragraphs\<close> walks over.\<close>

definition paragraphs_of :: "pdf_reader \<Rightarrow> string list" where
  "paragraphs_of self = re_split paragraph_sep (join [newline, newline] (extract_text_by_page self))"

text \<open>One round of the loop of \<^verbatim>\<open>split_by_paragraphs\<close> as a function on the state, and the
  block after the loop. The lemmas below show that the loop is the fold of this step.\<close>

definition para_step :: "para_state \<Rightarrow> string \<Rightarrow> para_state" where
  "para_step st p =
     (if strip p = [] then st
      else if is_heading (strip p) then
        (if current_section st \<noteq> []
         then st\<lparr>sections := sections st @ [flush_section st], section_num := section_num st + 1,
                 current_title := Some (take 100 (strip p)), current_section := []\<rparr>
         else st\<lparr>current_title := Some (take 100 (strip p)), current_section := []\<rparr>)
      else st\<lparr>current_section := current_section st @ [strip p]\<rparr>)"

definition para_finish :: "para_state \<Rightarrow> pdf_section list" where
  "para_finish st =
     (if current_section st \<noteq> [] then sections st @ [flush_section st] else sections st)"

text \<open>The non-blank paragraphs, trimmed, and the section that they make when no heading
  comes before them.\<close>

definition body_paragraphs :: "string list \<Rightarrow> string list" where
  "body_paragraphs ps = filter (\<lambda>p. p \<noteq> []) (map strip ps)"

definition untitled_section :: "string list \<Rightarrow> pdf_section" where
  "untitled_section ps =
     \<lparr>title = ''Section 1'', level = 0, start_page = None, end_page = None,
      content = strip (join [newline, newline] (body_paragraphs ps))\<rparr>"

text \<open>The invariant of the loop: finished sections have a content, level 0 and no page
  fields, and every collected paragraph has a character that is not whitespace.\<close>

definition para_inv :: "para_state \<Rightarrow> bool" where
  "para_inv st = ((\<forall>s\<in>set (sections st). content s \<noteq> [] \<and> level s = 0 \<and> start_page s = None \<and> end_page s = None) \<and>
                  (\<forall>p\<in>set (current_section st). \<exists>c\<in>set p. \<not> isspace c))"

text \<open>The sentences that \<^verbatim>\<open>_extract_key_sentences\<close> scores, and their stable sort by
  falling score.\<close>

definition key_sentence_candidates :: "string \<Rightarrow> string list" where
  "key_sentence_candidates text =
     take 50 (map strip (filter (\<lambda>s. 20 < length (strip s)) (re_split sentence_sep text)))"

definition ranked :: "string list \<Rightarrow> string list" where
  "ranked cands = sort_key (\<lambda>s. - sentence_score s) cands"

text \<open>What it means for a pattern to match at the start of a string, said without a search:
  each class takes some admissible number of characters of its kind.\<close>

fun accepts :: "regex \<Rightarrow> string \<Rightarrow> bool" where
  "accepts [] s = True"
| "accepts (Dollar # as) s = ((s = [] \<or> s = [newline]) \<and> accepts as s)"
| "accepts (Rep p lo hi # as) s =
     (\<exists>n. lo \<le> n \<and> n \<le> length s \<and> (case hi of None \<Rightarrow> True | Some h \<Rightarrow> n \<le> h) \<and>
          list_all p (take n s) \<and> accepts as (drop n s))"

text \<open>The second heading pattern.\<close>

definition all_caps_pattern :: regex where
  "all_caps_pattern = [exactly_one isAZ, at_least 3 (\<lambda>c. isAZ c \<or> isspace c), Dollar]"

section \<open>Example documents\<close>

text \<open>Three resolvers of page numbers. The first raises on the references from 100 on and
  the second returns \<^verbatim>\<open>None\<close> for them; the third returns negative pages.\<close>

definition page_of_ref :: "destination \<Rightarrow> py_error + int option" where
  "page_of_ref d =
     (case d of Destination t ref \<Rightarrow> if ref < 100 then Inr (Some (int ref)) else Inl PdfError)"

definition page_or_none :: "destination \<Rightarrow> py_error + int option" where
  "page_or_none d =
     (case d of Destination t ref \<Rightarrow> if ref < 100 then Inr (Some (int ref)) else Inr None)"





definition doc_unresolved_none :: pdf_reader where
  "doc_unresolved_none =
     \<lparr>outline = Inr [Item (Destination ''A'' 0), Item (Destination ''Broken'' 100), Item (Destination ''C'' 1)],
      pages = [''p0'', ''p1''],
      get_destination_page_number = page_or_none\<rparr>"

definition doc_three_entries :: pdf_reader where
  "doc_three_entries =
     \<lparr>outline = Inr [Item (Destination ''Intro'' 0), Nested [Item (Destination ''Methods'' 5)],
                     Item (Destination ''Results'' 9)],
      pages = replicate 12 ''text'',
      get_destination_page_number = page_of_ref\<rparr>"

definition doc_out_of_order :: pdf_reader where
  "doc_out_of_order =
     \<lparr>outline = Inr [Item (Destination ''Results'' 5), Item (Destination ''Methods'' 2)],
      pages = [''p0'', ''p1'', ''p2'', ''p3'', ''p4'', ''p5''],
      get_destination_page_number = page_of_ref\<rparr>"

definition out_of_order_sections :: "pdf_section list" where
  "out_of_order_sections =
     [\<lparr>title = ''Results'', level = 0, start_page = Some 6, end_page = Some 2, content = ''''\<rparr>,
      \<lparr>title = ''Methods'', level = 0, start_page = Some 3, end_page = Some 6,
        content = ''p2'' @ [newline, newline] @ ''p3'' @ [newline, newline] @ ''p4'' @ [newline, newline] @ ''p5''\<rparr>]"


definition doc_unresolved :: pdf_reader where
  "doc_unresolved =
     \<lparr>outline = Inr [Item (Destination ''A'' 0), Item (Destination ''Broken'' 100), Item (Destination ''C'' 1)],
      pages = [''p0'', ''p1''],
      get_destination_page_number = page_of_ref\<rparr>"

definition doc_no_outline :: pdf_reader where
  "doc_no_outline =
     \<lparr>outline = Inr [],
      pages = [''INTRODUCTION'' @ [newline, newline] @ ''This is body text about the topic.''
               @ [newline, newline] @ ''METHODS'' @ [newline, newline] @ ''We used method X.''],
      get_destination_page_number = page_of_ref\<rparr>"

definition doc_plain :: pdf_reader where
  "doc_plain =
     \<lparr>outline = Inr [],
      pages = [''First paragraph of plain text.'' @ [newline, newline] @ ''Second paragraph.'',
               ''Third paragraph on page two.''],
      get_destination_page_number = page_of_ref\<rparr>"

definition doc_headings_only :: pdf_reader where
  "doc_headings_only =
     \<lparr>outline = Inr [],
      pages = [''Preface text before any heading.'' @ [newline, newline] @ ''INTRODUCTION'' @ [newline, newline] @
               ''OVERVIEW'' @ [newline, newline] @ ''Body text here.'' @ [newline, newline] @ ''APPENDIX''],
      get_destination_page_number = page_of_ref\<rparr>"

definition doc_no_appendix :: pdf_reader where
  "doc_no_appendix =
     \<lparr>outline = Inr [],
      pages = [''Preface text before any heading.'' @ [newline, newline] @ ''INTRODUCTION'' @ [newline, newline] @
               ''OVERVIEW'' @ [newline, newline] @ ''Body text here.''],
      get_destination_page_number = page_of_ref\<rparr>"

definition doc_overview_only :: pdf_reader where
  "doc_overview_only =
     \<lparr>outline = Inr [],
      pages = [''Preface text before any heading.'' @ [newline, newline] @
               ''OVERVIEW'' @ [newline, newline] @ ''Body text here.''],
      get_destination_page_number = page_of_ref\<rparr>"

definition ranking_example :: string where
  "ranking_example =
     ''We found 3 results in the main study of this topic. Short one. '' @
     ''The weather was nice and nothing else happened today! '' @
     ''It said '' @ [single_quote] @ ''hello world'' @ [single_quote] @ '' to everyone here? '' @
     ''Blue birds sing over green hills at dawn. ''"

definition doc_twelve_blank :: pdf_reader where
  "doc_twelve_blank =
     \<lparr>outline = Inl PdfError, pages = replicate 12 [],
      get_destination_page_number = (\<lambda>d. Inl PdfError)\<rparr>"

definition summary_example :: "pdf_section list" where
  "summary_example =
     [\<lparr>title = ''Intro'', level = 1, start_page = Some 1, end_page = Some 5,
        content = ''We found 3 results in the main study.''\<rparr>]"

section \<open>Lemmas on the outline path\<close>

lemma extract_text_by_page_pages: "extract_text_by_page self = pages self"
  by (simp add: extract_text_by_page_def total_pages_def map_nth)

lemma py_getitem_py_nth:
  "- int (length xs) \<le> k \<Longrightarrow> k < int (length xs) \<Longrightarrow> py_getitem xs k = Inr (py_nth xs k)"
  by (simp add: py_getitem_def py_nth_def)

lemma py_getitem_below: "k < - int (length xs) \<Longrightarrow> py_getitem xs k = Inl IndexError"
  by (simp add: py_getitem_def)

lemma collect_pages_readable:
  "\<forall>k\<in>set ks. - int (length pt) \<le> k \<Longrightarrow>
   collect_pages pt ks = Inr (map (py_nth pt) (filter (\<lambda>k. k < int (length pt)) ks))"
  by (induction ks) (simp_all add: py_getitem_py_nth)

lemma py_range_lower: "k \<in> set (py_range a b) \<Longrightarrow> a \<le> k"
  by (simp add: py_range_def)

lemma py_range_empty: "b \<le> a \<Longrightarrow> py_range a b = []"
  by (simp add: py_range_def)

lemma py_range_Cons: "a < b \<Longrightarrow> py_range a b = a # py_range (a + 1) b"
  by (simp add: py_range_def upto_rec1)

lemma collect_pages_range_ok:
  assumes "b \<le> a \<or> - int (length pt) \<le> a"
  shows "collect_pages pt (py_range a b) = Inr (pages_between pt a b)"
proof -
  have "\<forall>k\<in>set (py_range a b). - int (length pt) \<le> k"
  proof
    fix k assume k: "k \<in> set (py_range a b)"
    then have "py_range a b \<noteq> []" by auto
    with assms have "- int (length pt) \<le> a" using py_range_empty[of b a] by auto
    with py_range_lower[OF k] show "- int (length pt) \<le> k" by simp
  qed
  then show ?thesis unfolding pages_between_def by (rule collect_pages_readable)
qed

lemma collect_pages_range_error:
  assumes "a < b" and "a < - int (length pt)"
  shows "collect_pages pt (py_range a b) = Inl IndexError"
proof -
  have "a < int (length pt)" using assms(2) by simp
  then show ?thesis
    by (simp add: py_range_Cons[OF assms(1)] py_getitem_below[OF assms(2)])
qed

lemma collect_pages_range_iff:
  "(\<exists>c. collect_pages pt (py_range a b) = Inr c) = (b \<le> a \<or> - int (length pt) \<le> a)"
proof (cases "b \<le> a \<or> - int (length pt) \<le> a")
  case True
  then show ?thesis by (simp add: collect_pages_range_ok)
next
  case False
  then have "a < b" "a < - int (length pt)" by auto
  then show ?thesis using False by (simp add: collect_pages_range_error)
qed




lemma next_page_Cons_Suc: "next_page (e # toc) n (Suc i) = next_page toc n i"
  by (simp add: next_page_def)

lemma next_page_Cons_0:
  "next_page (e # toc) n 0 = (case toc of [] \<Rightarrow> Some n | nxt # _ \<Rightarrow> page nxt)"
  by (simp add: next_page_def split: list.splits)

text \<open>What the loop returns, one entry after the other.\<close>

lemma toc_loop_Cons_Inr:
  "(toc_loop pt n (e # toc) = Inr secs) =
   (\<exists>s b c rest. page e = Some s \<and> next_page (e # toc) n 0 = Some b \<and>
      collect_pages pt (py_range s b) = Inr c \<and> toc_loop pt n toc = Inr rest \<and>
      secs = \<lparr>title = title e, level = level e, start_page = Some (s + 1), end_page = Some b,
               content = strip (join [newline, newline] c)\<rparr> # rest)"
  by (auto simp: Let_def next_page_Cons_0 split: sum.splits option.splits)

lemma toc_loop_shape:
  "toc_loop pt n toc = Inr secs \<Longrightarrow>
   length secs = length toc \<and>
   (\<forall>i<length toc. title (secs ! i) = title (toc ! i) \<and> level (secs ! i) = level (toc ! i) \<and>
      start_page (secs ! i) = map_option (\<lambda>p. p + 1) (page (toc ! i)) \<and>
      end_page (secs ! i) = next_page toc n i \<and>
      range_readable (length pt) (page (toc ! i)) (next_page toc n i) \<and>
      (\<exists>a b. page (toc ! i) = Some a \<and> next_page toc n i = Some b \<and>
         content (secs ! i) = strip (join [newline, newline] (pages_between pt a b))))"
proof (induction toc arbitrary: secs)
  case Nil
  then show ?case by simp
next
  case (Cons e toc)
  from Cons.prems obtain s b c rest where
    s: "page e = Some s" and b: "next_page (e # toc) n 0 = Some b" and
    c: "collect_pages pt (py_range s b) = Inr c" and
    rest: "toc_loop pt n toc = Inr rest" and
    secs: "secs = \<lparr>title = title e, level = level e, start_page = Some (s + 1), end_page = Some b,
             content = strip (join [newline, newline] c)\<rparr> # rest"
    unfolding toc_loop_Cons_Inr by blast
  from c have r: "b \<le> s \<or> - int (length pt) \<le> s"
    using collect_pages_range_iff[of pt s b] by blast
  with c have c': "c = pages_between pt s b" by (simp add: collect_pages_range_ok)
  from Cons.IH[OF rest] have len: "length rest = length toc" and
    ih: "\<And>i. i < length toc \<Longrightarrow> title (rest ! i) = title (toc ! i) \<and> level (rest ! i) = level (toc ! i) \<and>
      start_page (rest ! i) = map_option (\<lambda>p. p + 1) (page (toc ! i)) \<and>
      end_page (rest ! i) = next_page toc n i \<and>
      range_readable (length pt) (page (toc ! i)) (next_page toc n i) \<and>
      (\<exists>a b. page (toc ! i) = Some a \<and> next_page toc n i = Some b \<and>
         content (rest ! i) = strip (join [newline, newline] (pages_between pt a b)))" by auto
  have "\<forall>i<length (e # toc). title (secs ! i) = title ((e # toc) ! i) \<and> level (secs ! i) = level ((e # toc) ! i) \<and>
      start_page (secs ! i) = map_option (\<lambda>p. p + 1) (page ((e # toc) ! i)) \<and>
      end_page (secs ! i) = next_page (e # toc) n i \<and>
      range_readable (length pt) (page ((e # toc) ! i)) (next_page (e # toc) n i) \<and>
      (\<exists>a b. page ((e # toc) ! i) = Some a \<and> next_page (e # toc) n i = Some b \<and>
         content (secs ! i) = strip (join [newline, newline] (pages_between pt a b)))"
  proof (intro allI impI)
    fix i assume i: "i < length (e # toc)"
    show "title (secs ! i) = title ((e # toc) ! i) \<and> level (secs ! i) = level ((e # toc) ! i) \<and>
      start_page (secs ! i) = map_option (\<lambda>p. p + 1) (page ((e # toc) ! i)) \<and>
      end_page (secs ! i) = next_page (e # toc) n i \<and>
      range_readable (length pt) (page ((e # toc) ! i)) (next_page (e # toc) n i) \<and>
      (\<exists>a b. page ((e # toc) ! i) = Some a \<and> next_page (e # toc) n i = Some b \<and>
         content (secs ! i) = strip (join [newline, newline] (pages_between pt a b)))"
    proof (cases i)
      case 0
      then show ?thesis using s b r c' secs by (simp add: range_readable_def)
    next
      case (Suc j)
      with i have "j < length toc" by simp
      from ih[OF this] show ?thesis using Suc secs by (simp add: next_page_Cons_Suc)
    qed
  qed
  moreover have "length secs = length (e # toc)" using len secs by simp
  ultimately show ?case by blast
qed

lemma toc_loop_total:
  "\<forall>i<length toc. range_readable (length pt) (page (toc ! i)) (next_page toc n i) \<Longrightarrow>
   \<exists>secs. toc_loop pt n toc = Inr secs"
proof (induction toc)
  case Nil
  then show ?case by simp
next
  case (Cons e toc)
  have "\<forall>i<length toc. range_readable (length pt) (page (toc ! i)) (next_page toc n i)"
  proof (intro allI impI)
    fix i assume "i < length toc"
    then have "Suc i < length (e # toc)" by simp
    with Cons.prems have "range_readable (length pt) (page ((e # toc) ! Suc i)) (next_page (e # toc) n (Suc i))"
      by blast
    then show "range_readable (length pt) (page (toc ! i)) (next_page toc n i)"
      by (simp add: next_page_Cons_Suc)
  qed
  with Cons.IH obtain rest where rest: "toc_loop pt n toc = Inr rest" by blast
  from Cons.prems have "range_readable (length pt) (page ((e # toc) ! 0)) (next_page (e # toc) n 0)"
    by (metis length_greater_0_conv list.distinct(1))
  then obtain s b where s: "page e = Some s" and b: "next_page (e # toc) n 0 = Some b"
    and r: "b \<le> s \<or> - int (length pt) \<le> s"
    by (auto simp: range_readable_def split: option.splits)
  from r have "collect_pages pt (py_range s b) = Inr (pages_between pt s b)"
    by (rule collect_pages_range_ok)
  with s b rest show ?case unfolding toc_loop_Cons_Inr by blast
qed

lemma toc_readable_iff:
  "toc_readable self =
     (\<forall>i<length (extract_toc self).
        range_readable (length (pages self)) (page (extract_toc self ! i))
          (next_page (extract_toc self) (total_pages self) i))"
  by (auto simp: toc_readable_def list_all_iff)



lemma split_by_toc_toc_loop:
  "extract_toc self \<noteq> [] \<Longrightarrow>
   split_by_toc self = toc_loop (pages self) (total_pages self) (extract_toc self)"
  by (simp add: split_by_toc_def Let_def extract_text_by_page_pages)

lemma parse_outline_append:
  "parse_outline self (xs @ ys) lvl = parse_outline self xs lvl @ parse_outline self ys lvl"
  by (induction xs) simp_all

lemma how_to_use_length: "length (last how_to_use) = 74"
  by (simp add: how_to_use_def)

section \<open>Lemmas on the paragraph path\<close>

lemma is_likely_heading_total: "is_likely_heading t = Inr (is_heading t)"
  by (simp add: is_heading_def is_likely_heading_def py_truediv_def Let_def)

lemma para_loop_foldl: "para_loop ps st = Inr (foldl para_step st ps)"
  by (induction ps arbitrary: st) (simp_all add: Let_def is_likely_heading_total para_step_def)

lemma split_by_paragraphs_foldl:
  "split_by_paragraphs self = Inr (para_finish (foldl para_step para_init (paragraphs_of self)))"
  by (simp add: split_by_paragraphs_def Let_def para_loop_foldl para_finish_def paragraphs_of_def)

lemma dropWhile_all: "(\<forall>c\<in>set (dropWhile P s). P c) = (\<forall>c\<in>set s. P c)"
proof
  assume a: "\<forall>c\<in>set (dropWhile P s). P c"
  have "set s = set (takeWhile P s) \<union> set (dropWhile P s)"
    by (metis set_append takeWhile_dropWhile_id)
  with a show "\<forall>c\<in>set s. P c" by (auto dest: set_takeWhileD)
next
  assume "\<forall>c\<in>set s. P c"
  then show "\<forall>c\<in>set (dropWhile P s). P c" by (auto dest: set_dropWhileD)
qed

lemma strip_empty_iff: "(strip s = []) = (\<forall>c\<in>set s. isspace c)"
  by (simp add: strip_def dropWhile_eq_Nil_conv dropWhile_all)

lemma strip_has_nonspace: "strip p \<noteq> [] \<Longrightarrow> \<exists>c\<in>set (strip p). \<not> isspace c"
proof -
  assume a: "strip p \<noteq> []"
  let ?d = "dropWhile isspace (rev (dropWhile isspace p))"
  from a have ne: "?d \<noteq> []" by (simp add: strip_def)
  then have "\<not> isspace (hd ?d)" by (rule hd_dropWhile)
  moreover have "hd ?d \<in> set (strip p)" using ne by (simp add: strip_def)
  ultimately show ?thesis by blast
qed

lemma set_join_first: "set x \<subseteq> set (join sep (x # xs))"
  by (cases xs) auto

lemma flush_content_nonempty:
  assumes "current_section st \<noteq> []" and "\<forall>p\<in>set (current_section st). \<exists>c\<in>set p. \<not> isspace c"
  shows "content (flush_section st) \<noteq> []"
proof -
  from assms(1) obtain x xs where cs: "current_section st = x # xs" by (cases "current_section st") auto
  with assms(2) obtain c where "c \<in> set x" "\<not> isspace c" by auto
  then have "\<exists>c\<in>set (join [newline, newline] (x # xs)). \<not> isspace c"
    using set_join_first[of x "[newline, newline]" xs] by blast
  then show ?thesis by (simp add: flush_section_def cs strip_empty_iff)
qed

lemma flush_fields: "level (flush_section st) = 0 \<and> start_page (flush_section st) = None \<and> end_page (flush_section st) = None"
  by (simp add: flush_section_def)

lemma para_step_inv: "para_inv st \<Longrightarrow> para_inv (para_step st p)"
  by (auto simp: para_inv_def para_step_def flush_content_nonempty flush_fields dest: strip_has_nonspace)

lemma foldl_para_step_inv: "para_inv st \<Longrightarrow> para_inv (foldl para_step st ps)"
  by (induction ps arbitrary: st) (simp_all add: para_step_inv)

lemma para_init_inv: "para_inv para_init"
  by (simp add: para_inv_def para_init_def)

lemma para_finish_inv:
  "para_inv st \<Longrightarrow> \<forall>s\<in>set (para_finish st). content s \<noteq> [] \<and> level s = 0 \<and> start_page s = None \<and> end_page s = None"
  by (auto simp: para_inv_def para_finish_def flush_content_nonempty flush_fields)

lemma split_by_paragraphs_inv:
  "\<exists>secs. split_by_paragraphs self = Inr secs \<and>
     (\<forall>s\<in>set secs. content s \<noteq> [] \<and> level s = 0 \<and> start_page s = None \<and> end_page s = None)"
  using para_finish_inv[OF foldl_para_step_inv[OF para_init_inv]]
  by (simp add: split_by_paragraphs_foldl)

lemma para_step_heading_twice:
  "strip h1 \<noteq> [] \<Longrightarrow> is_heading (strip h1) \<Longrightarrow> strip h2 \<noteq> [] \<Longrightarrow> is_heading (strip h2) \<Longrightarrow>
   para_step (para_step st h1) h2 = para_step st h2"
  by (simp add: para_step_def)

lemma para_finish_heading:
  "strip h \<noteq> [] \<Longrightarrow> is_heading (strip h) \<Longrightarrow> para_finish (para_step st h) = para_finish st"
  by (simp add: para_step_def para_finish_def)

lemma foldl_body:
  "\<forall>p\<in>set ps. strip p \<noteq> [] \<longrightarrow> \<not> is_heading (strip p) \<Longrightarrow>
   foldl para_step st ps = st\<lparr>current_section := current_section st @ body_paragraphs ps\<rparr>"
  by (induction ps arbitrary: st) (simp_all add: para_step_def body_paragraphs_def)

lemma body_paragraphs_nonempty: "\<exists>p\<in>set ps. strip p \<noteq> [] \<Longrightarrow> body_paragraphs ps \<noteq> []"
  by (auto simp: body_paragraphs_def filter_empty_conv)

lemma str_nat_1: "str_nat (Suc 0) = ''1''"
  by (subst str_nat.simps) simp

lemma flush_untitled:
  "flush_section (para_init\<lparr>current_section := body_paragraphs ps\<rparr>) = untitled_section ps"
  by (simp add: flush_section_def para_init_def untitled_section_def title_or_default_def str_nat_1)

lemma para_step_sections_prefix: "prefix (sections st) (sections (para_step st p))"
  by (simp add: para_step_def)

lemma foldl_sections_prefix: "prefix (sections st) (sections (foldl para_step st ps))"
proof (induction ps arbitrary: st)
  case Nil
  show ?case by simp
next
  case (Cons p ps)
  have "prefix (sections st) (sections (para_step st p))" by (rule para_step_sections_prefix)
  also have "prefix \<dots> (sections (foldl para_step (para_step st p) ps))" by (rule Cons.IH)
  finally show ?case by simp
qed

lemma para_finish_prefix: "prefix (sections st) (para_finish st)"
  by (simp add: para_finish_def)

lemma ratio_gt:
  "a \<le> n \<Longrightarrow> (6 / 10 < real a / real (max n 1)) = (3 * n < 5 * a)"
proof (cases "n = 0")
  case True
  assume "a \<le> n"
  with True show ?thesis by simp
next
  case False
  then have m: "max n 1 = n" by simp
  have "(6 / 10 < real a / real n) = (6 * real n < 10 * real a)"
    using False by (simp add: field_simps)
  also have "\<dots> = (3 * n < 5 * a)"
  proof -
    have "(6 * real n < 10 * real a) = (real (6 * n) < real (10 * a))" by simp
    also have "\<dots> = (6 * n < 10 * a)" by (simp only: of_nat_less_iff)
    also have "\<dots> = (3 * n < 5 * a)" by arith
    finally show ?thesis .
  qed
  finally have "(6 / 10 < real a / real n) = (3 * n < 5 * a)" .
  then show ?thesis by (simp only: m)
qed

lemma is_heading_iff:
  "is_heading text =
     (length text \<le> 200 \<and>
      ((\<exists>pattern\<in>set heading_patterns. re_match pattern (strip text)) \<or>
       (length (split_ws text) \<le> 10 \<and> 3 * length text < 5 * length (filter isupper text))))"
proof -
  have "length (filter isupper text) \<le> length text" by simp
  from ratio_gt[OF this] show ?thesis
    by (auto simp: is_heading_def is_likely_heading_def py_truediv_def Let_def list_ex_iff)
qed

lemma foldl_blank: "\<forall>p\<in>set ps. strip p = [] \<Longrightarrow> foldl para_step st ps = st"
  by (induction ps) (simp_all add: para_step_def)

lemma untitled_first:
  assumes body: "\<forall>p\<in>set pre. strip p \<noteq> [] \<longrightarrow> \<not> is_heading (strip p)"
    and ne: "\<exists>p\<in>set pre. strip p \<noteq> []"
    and h: "strip h \<noteq> []" "is_heading (strip h)"
  shows "\<exists>secs. para_finish (foldl para_step para_init (pre @ h # rest)) = untitled_section pre # secs"
proof -
  let ?st1 = "para_init\<lparr>current_section := body_paragraphs pre\<rparr>"
  have 1: "foldl para_step para_init pre = ?st1"
    using foldl_body[OF body, of para_init] by (simp add: para_init_def)
  have cs: "current_section ?st1 \<noteq> []" using body_paragraphs_nonempty[OF ne] by simp
  have 2: "sections (para_step ?st1 h) = [untitled_section pre]"
    using h cs by (simp add: para_step_def flush_untitled) (simp add: para_init_def)
  let ?st3 = "foldl para_step (para_step ?st1 h) rest"
  have "prefix (sections (para_step ?st1 h)) (sections ?st3)" by (rule foldl_sections_prefix)
  also have "prefix (sections ?st3) (para_finish ?st3)" by (rule para_finish_prefix)
  finally have "prefix [untitled_section pre] (para_finish ?st3)" by (simp only: 2)
  then obtain secs where "para_finish ?st3 = untitled_section pre # secs"
    by (auto simp: prefix_def)
  then show ?thesis by (simp add: 1)
qed

section \<open>Lemmas on the ranking of sentences\<close>

lemma insort_key_map_pair:
  "insort_key (\<lambda>x. - fst x) (g s, s) (map (\<lambda>s. (g s, s)) ys) =
   map (\<lambda>s. (g s, s)) (insort_key (\<lambda>s. - g s) s ys)"
  by (induction ys) simp_all

lemma sort_key_map_pair:
  "sort_key (\<lambda>x. - fst x) (map (\<lambda>s. (g s, s)) xs) = map (\<lambda>s. (g s, s)) (sort_key (\<lambda>s. - g s) xs)"
  by (induction xs) (simp_all add: insort_key_map_pair)

lemma scored_ranked:
  "map snd (filter (\<lambda>x. 0 < fst x) (take k (sort_key (\<lambda>x. - fst x) (map (\<lambda>s. (sentence_score s, s)) xs)))) =
   filter (\<lambda>s. 0 < sentence_score s) (take k (ranked xs))"
  by (simp add: sort_key_map_pair ranked_def take_map filter_map comp_def)

lemma extract_key_sentences_ranked_eq:
  assumes "0 \<le> n"
  shows "extract_key_sentences text n =
    filter (\<lambda>s. 0 < sentence_score s) (take (nat n) (ranked (key_sentence_candidates text)))"
proof -
  define ss where "ss = map strip (filter (\<lambda>s. 20 < length (strip s)) (re_split sentence_sep text))"
  have c: "key_sentence_candidates text = take 50 ss"
    by (simp add: key_sentence_candidates_def ss_def)
  have e: "extract_key_sentences text n =
    (if ss = [] then []
     else map snd (filter (\<lambda>x. 0 < fst x)
            (py_take n (sort_key (\<lambda>x. - fst x) (map (\<lambda>s. (sentence_score s, s)) (take 50 ss))))))"
    unfolding extract_key_sentences_def Let_def ss_def by (rule refl)
  have p: "py_take n xs = take (nat n) xs" for xs :: "(int \<times> string) list"
    using assms by (simp add: py_take_def)
  show ?thesis
  proof (cases "ss = []")
    case True
    then show ?thesis by (simp add: e c ranked_def)
  next
    case False
    then show ?thesis by (simp only: e c p scored_ranked if_False)
  qed
qed

lemma ranked_sorted: "sorted_wrt (\<lambda>a b. sentence_score b \<le> sentence_score a) (ranked cands)"
proof -
  have "sorted (map (\<lambda>s. - sentence_score s) (ranked cands))"
    unfolding ranked_def by (rule sorted_sort_key)
  then show ?thesis by (simp add: sorted_map)
qed

lemma sorted_wrt_take': "sorted_wrt R xs \<Longrightarrow> sorted_wrt R (take n xs)"
  by (metis append_take_drop_id sorted_wrt_append)

lemma ranked_stable:
  "filter (\<lambda>s. sentence_score s = k) (ranked cands) = filter (\<lambda>s. sentence_score s = k) cands"
proof -
  have "filter (\<lambda>s. - sentence_score s = - k) (sort_key (\<lambda>s. - sentence_score s) cands) =
        filter (\<lambda>s. - sentence_score s = - k) cands"
    by (rule sort_key_stable)
  then show ?thesis by (simp add: ranked_def)
qed

lemma contains_iff: "contains w s = (\<exists>pre suf. s = pre @ w @ suf)"
proof (induction s)
  case Nil
  show ?case by auto
next
  case (Cons c cs)
  show ?case
  proof
    assume "contains w (c # cs)"
    then consider "prefix w (c # cs)" | "contains w cs" by auto
    then show "\<exists>pre suf. c # cs = pre @ w @ suf"
    proof cases
      case 1
      then obtain suf where "c # cs = w @ suf" by (auto simp: prefix_def)
      then have "c # cs = [] @ w @ suf" by simp
      then show ?thesis by blast
    next
      case 2
      with Cons.IH obtain pre suf where "cs = pre @ w @ suf" by blast
      then have "c # cs = (c # pre) @ w @ suf" by simp
      then show ?thesis by blast
    qed
  next
    assume "\<exists>pre suf. c # cs = pre @ w @ suf"
    then obtain pre suf where e: "c # cs = pre @ w @ suf" by blast
    show "contains w (c # cs)"
    proof (cases pre)
      case Nil
      with e have "prefix w (c # cs)" by (simp add: prefix_def)
      then show ?thesis by simp
    next
      case (Cons p pre')
      with e have "cs = pre' @ w @ suf" by simp
      with Cons.IH have "contains w cs" by blast
      then show ?thesis by simp
    qed
  qed
qed

lemma first_some_None: "(first_some f xs = None) = (\<forall>x\<in>set xs. f x = None)"
  by (induction xs) (auto split: option.splits)

lemma set_rep_counts:
  "set (rep_counts p lo hi s) =
     {n. lo \<le> n \<and> n \<le> length (takeWhile p s) \<and> (case hi of None \<Rightarrow> True | Some h \<Rightarrow> n \<le> h)}"
  by (auto simp: rep_counts_def Let_def split: option.splits)

lemma re_match_digits: "re_match digits s = (s \<noteq> [] \<and> isdigit (hd s))"
proof (cases s)
  case Nil
  then show ?thesis
    by (simp add: re_match_def digits_def one_or_more_def rep_counts_def)
next
  case (Cons c cs)
  show ?thesis
  proof (cases "isdigit c")
    case True
    then have "1 \<le> length (takeWhile isdigit s)" by (simp add: Cons)
    then have "1 \<in> set (rep_counts isdigit 1 None s)"
      by (simp add: set_rep_counts)
    then show ?thesis using True
      by (auto simp: re_match_def digits_def one_or_more_def first_some_None Cons)
  next
    case False
    then show ?thesis
      by (simp add: re_match_def digits_def one_or_more_def rep_counts_def Cons)
  qed
qed

lemma re_search_digits: "re_search digits s = (\<exists>c\<in>set s. isdigit c)"
  by (induction s) (auto simp: re_match_digits)

lemma distinct_important_words: "distinct important_words"
  by (simp add: important_words_def)

lemma keyword_count:
  "(\<Sum>w\<leftarrow>important_words. if P w then 1 else 0) = int (card {w \<in> set important_words. P w})"
proof -
  have "(\<Sum>w\<leftarrow>ws. if P w then 1 else 0) = int (length (filter P ws))" for ws
    by (induction ws) simp_all
  moreover have "length (filter P important_words) = card {w \<in> set important_words. P w}"
    using distinct_length_filter[OF distinct_important_words, of P]
    by (simp add: Collect_conj_eq Int_commute)
  ultimately show ?thesis by simp
qed

section \<open>Lemmas on the regular expressions\<close>

lemma run_length_iff:
  "(n \<le> length (takeWhile p s)) = (n \<le> length s \<and> list_all p (take n s))"
proof
  assume a: "n \<le> length (takeWhile p s)"
  have "length (takeWhile p s) \<le> length s" by (rule length_takeWhile_le)
  moreover have "take n s = take n (takeWhile p s)"
    using a by (metis append_eq_conv_conj takeWhile_dropWhile_id take_append take_all_iff
        diff_is_0_eq take_0 append_Nil2)
  then have "list_all p (take n s)"
    by (auto simp: list_all_iff dest: in_set_takeD set_takeWhileD)
  ultimately show "n \<le> length s \<and> list_all p (take n s)" using a by simp
next
  assume a: "n \<le> length s \<and> list_all p (take n s)"
  then have "takeWhile p (take n s @ drop n s) = take n s @ takeWhile p (drop n s)"
    by (intro takeWhile_append2) (simp add: list_all_iff)
  then have "length (takeWhile p s) = length (take n s) + length (takeWhile p (drop n s))"
    by simp
  with a show "n \<le> length (takeWhile p s)" by simp
qed

lemma re_match_accepts: "re_match pat s = accepts pat s"
proof (induction pat arbitrary: s)
  case Nil
  show ?case by (simp add: re_match_def)
next
  case (Cons a pat)
  have ih: "(re_match_len pat t \<noteq> None) = accepts pat t" for t
    using Cons.IH[of t] by (simp add: re_match_def)
  show ?case
  proof (cases a)
    case Dollar
    then show ?thesis using ih by (simp add: re_match_def)
  next
    case (Rep p lo hi)
    have "re_match (a # pat) s = (\<exists>n\<in>set (rep_counts p lo hi s). re_match_len pat (drop n s) \<noteq> None)"
      by (auto simp: re_match_def Rep first_some_None)
    also have "\<dots> = accepts (a # pat) s"
      by (auto simp: Rep set_rep_counts run_length_iff ih[symmetric])
    finally show ?thesis .
  qed
qed

lemma isspace_newline: "isspace newline"
  by (simp add: isspace_def newline_def)

lemma all_caps_pattern_iff:
  "re_match all_caps_pattern s =
     (\<exists>c cs. s = c # cs \<and> isAZ c \<and> 3 \<le> length cs \<and> list_all (\<lambda>c. isAZ c \<or> isspace c) cs)"
proof
  assume "re_match all_caps_pattern s"
  then obtain n m where n: "1 \<le> n" "n \<le> length s" "n \<le> 1" "list_all isAZ (take n s)"
    and m: "3 \<le> m" "m \<le> length (drop n s)" "list_all (\<lambda>c. isAZ c \<or> isspace c) (take m (drop n s))"
    and d: "drop m (drop n s) = [] \<or> drop m (drop n s) = [newline]"
    by (auto simp: re_match_accepts all_caps_pattern_def exactly_one_def at_least_def)
  from n have n1: "n = 1" by simp
  with n obtain c cs where s: "s = c # cs" by (cases s) auto
  with n n1 have c: "isAZ c" by simp
  have cs: "cs = take m cs @ drop m cs" by simp
  from d s n1 have "list_all (\<lambda>c. isAZ c \<or> isspace c) (drop m cs)"
    by (auto simp: isspace_newline)
  with m s n1 have "list_all (\<lambda>c. isAZ c \<or> isspace c) (take m cs @ drop m cs)"
    by (simp only: list_all_append) simp
  then have "list_all (\<lambda>c. isAZ c \<or> isspace c) cs" by simp
  moreover from m s n1 have "3 \<le> length cs" by simp
  ultimately show "\<exists>c cs. s = c # cs \<and> isAZ c \<and> 3 \<le> length cs \<and> list_all (\<lambda>c. isAZ c \<or> isspace c) cs"
    using s c by blast
next
  assume "\<exists>c cs. s = c # cs \<and> isAZ c \<and> 3 \<le> length cs \<and> list_all (\<lambda>c. isAZ c \<or> isspace c) cs"
  then obtain c cs where s: "s = c # cs" "isAZ c" "3 \<le> length cs" "list_all (\<lambda>c. isAZ c \<or> isspace c) cs"
    by blast
  have a2: "accepts [Rep (\<lambda>c. isAZ c \<or> isspace c) 3 None, Dollar] cs"
    by (subst accepts.simps, rule exI[of _ "length cs"]) (use s in simp)
  have "accepts [Rep isAZ 1 (Some 1), Rep (\<lambda>c. isAZ c \<or> isspace c) 3 None, Dollar] (c # cs)"
    by (subst accepts.simps, rule exI[of _ 1]) (use s a2 in simp)
  then show "re_match all_caps_pattern s"
    by (simp add: re_match_accepts all_caps_pattern_def exactly_one_def at_least_def s)
qed

lemma heading_patterns_all_caps: "heading_patterns ! 1 = all_caps_pattern"
  by (simp add: heading_patterns_def all_caps_pattern_def)

section \<open>Further lemmas on the outline\<close>

lemma collect_pages_error_kind: "collect_pages pt ks = Inl e \<Longrightarrow> e = IndexError"
  by (induction ks) (auto simp: py_getitem_def split: if_splits sum.splits)

lemma toc_loop_error_kind: "toc_loop pt n toc = Inl e \<Longrightarrow> e = IndexError \<or> e = TypeError"
  by (induction toc) (auto simp: Let_def split: option.splits sum.splits dest: collect_pages_error_kind)

lemma extract_toc_skips_raising:
  assumes "outline self = Inr (xs @ Item d # ys)" and "get_destination_page_number self d = Inl e"
  shows "extract_toc self = parse_outline self xs 0 @ parse_outline self ys 0"
  using assms by (simp add: extract_toc_def parse_outline_append)

lemma extract_toc_keeps_resolved:
  assumes "outline self = Inr (xs @ Item d # ys)" and "get_destination_page_number self d = Inr p"
  shows "extract_toc self =
    parse_outline self xs 0 @ \<lparr>title = dest_title d, level = 0, page = p\<rparr> # parse_outline self ys 0"
  using assms by (simp add: extract_toc_def parse_outline_append)

lemma extract_toc_no_outline:
  "outline self = Inl e \<or> outline self = Inr [] \<Longrightarrow> extract_toc self = []"
  by (auto simp: extract_toc_def)

lemma split_by_toc_fallback: "extract_toc self = [] \<Longrightarrow> split_by_toc self = split_by_paragraphs self"
  by (simp add: split_by_toc_def)

lemma raising_item_skipped_example:
  "map title (extract_toc doc_unresolved) = [''A'', ''C''] \<and>
   map start_page (projr (split_by_toc doc_unresolved)) = [Some 1, Some 2]"
  by code_simp

lemma split_by_toc_returns_iff:
  assumes "extract_toc self \<noteq> []"
  shows "(\<exists>secs. split_by_toc self = Inr secs) = toc_readable self"
proof
  assume "\<exists>secs. split_by_toc self = Inr secs"
  then obtain secs where "toc_loop (pages self) (total_pages self) (extract_toc self) = Inr secs"
    using assms by (auto simp: split_by_toc_toc_loop)
  from toc_loop_shape[OF this] show "toc_readable self"
    by (simp add: toc_readable_iff)
next
  assume "toc_readable self"
  then have "\<exists>secs. toc_loop (pages self) (total_pages self) (extract_toc self) = Inr secs"
    by (intro toc_loop_total) (simp add: toc_readable_iff)
  then show "\<exists>secs. split_by_toc self = Inr secs"
    using assms by (simp add: split_by_toc_toc_loop)
qed

lemma split_by_toc_error_kind:
  assumes "extract_toc self \<noteq> []" and "split_by_toc self = Inl e"
  shows "e = IndexError \<or> e = TypeError"
  using assms by (auto simp: split_by_toc_toc_loop dest: toc_loop_error_kind)

section \<open>The properties of the specification\<close>




text \<open>
  C4, as the specification states it: every section of \<^verbatim>\<open>split_by_toc\<close> has
  \<^verbatim>\<open>end_page >= start_page\<close>, also where the pages of the outline repeat or go back.
  This fails: for the outline with pages 5 and 2 the first section is reported with
  \<^verbatim>\<open>start_page\<close> 6 and \<^verbatim>\<open>end_page\<close> 2.
\<close>

theorem split_by_toc_page_range_counterexample:
  "split_by_toc doc_out_of_order = Inr out_of_order_sections \<and>
   \<not> list_all page_range_ok out_of_order_sections"
  by code_simp

text \<open>
  C4, amended. A section of \<^verbatim>\<open>split_by_toc\<close> has \<^verbatim>\<open>end_page >= start_page\<close> if and only
  if the page of its entry is strictly below the page of the next entry (below the number
  of pages, for the last entry). So the invariant holds for every section of an outline
  whose pages increase strictly and stay below the number of pages.
\<close>

theorem split_by_toc_page_range:
  assumes "extract_toc self \<noteq> []" and "split_by_toc self = Inr secs"
  shows "\<forall>i<length secs.
    page_range_ok (secs ! i) =
      (\<exists>a b. page (extract_toc self ! i) = Some a \<and>
             next_page (extract_toc self) (total_pages self) i = Some b \<and> a < b)"
proof -
  from assms have "toc_loop (pages self) (total_pages self) (extract_toc self) = Inr secs"
    by (simp add: split_by_toc_toc_loop)
  from toc_loop_shape[OF this] show ?thesis
    by (auto simp: page_range_ok_def)
qed

theorem split_by_toc_page_range_witness:
  "extract_toc doc_three_entries \<noteq> [] \<and>
   (\<exists>secs. split_by_toc doc_three_entries = Inr secs \<and> length secs = 3 \<and> list_all page_range_ok secs)"
proof -
  have h1: "extract_toc doc_three_entries \<noteq> []" by code_simp
  have h2: "split_by_toc doc_three_entries = Inr (projr (split_by_toc doc_three_entries))" by code_simp
  have h3: "length (projr (split_by_toc doc_three_entries)) = 3" by code_simp
  have h4: "list_all (\<lambda>i. case page (extract_toc doc_three_entries ! i) of None \<Rightarrow> False
              | Some a \<Rightarrow> (case next_page (extract_toc doc_three_entries) (total_pages doc_three_entries) i of
                   None \<Rightarrow> False | Some b \<Rightarrow> a < b)) [0..<3]"
    by code_simp
  have "\<forall>i<length (projr (split_by_toc doc_three_entries)). page_range_ok (projr (split_by_toc doc_three_entries) ! i)"
  proof (intro allI impI)
    fix i assume i: "i < length (projr (split_by_toc doc_three_entries))"
    with h3 h4 have "case page (extract_toc doc_three_entries ! i) of None \<Rightarrow> False
              | Some a \<Rightarrow> (case next_page (extract_toc doc_three_entries) (total_pages doc_three_entries) i of
                   None \<Rightarrow> False | Some b \<Rightarrow> a < b)"
      by (simp add: list_all_iff)
    then have "\<exists>a b. page (extract_toc doc_three_entries ! i) = Some a \<and>
             next_page (extract_toc doc_three_entries) (total_pages doc_three_entries) i = Some b \<and> a < b"
      by (auto split: option.splits)
    with split_by_toc_page_range[OF h1 h2] i
    show "page_range_ok (projr (split_by_toc doc_three_entries) ! i)" by blast
  qed
  then have "list_all page_range_ok (projr (split_by_toc doc_three_entries))"
    by (simp add: list_all_length)
  with h1 h2 h3 show ?thesis by metis
qed




text \<open>
  C8. The specification asks that an outline entry whose page cannot be resolved is left
  out and that such a failure never ends the run. \<^verbatim>\<open>_parse_outline\<close> leaves an item out
  only where the resolution raises (lemmas \<open>extract_toc_skips_raising\<close> and
  \<open>extract_toc_keeps_resolved\<close>; \<open>extract_toc_no_outline\<close> and \<open>split_by_toc_fallback\<close> are the
  part on the missing outline). Where the library returns \<^verbatim>\<open>None\<close> for the page it does
  not find, the entry is kept with the page \<^verbatim>\<open>None\<close>, and \<^verbatim>\<open>split_by_toc\<close> ends with
  \<^verbatim>\<open>TypeError\<close>: of the three bookmarks of the example, the second unresolved, no
  section is produced.
\<close>

theorem unresolved_page_aborts:
  "get_destination_page_number doc_unresolved_none (Destination ''Broken'' 100) = Inr None \<and>
   map title (extract_toc doc_unresolved_none) = [''A'', ''Broken'', ''C''] \<and>
   map page (extract_toc doc_unresolved_none) = [Some 0, None, Some 1] \<and>
   split_by_toc doc_unresolved_none = Inl TypeError"
  by code_simp

text \<open>
  C2. \<^verbatim>\<open>_is_likely_heading\<close> returns a truth value for every string and raises nothing.
  It is false for a text of more than 200 characters. For a shorter text it is true if the
  trimmed text matches one of the five heading patterns, and true if the text has at most
  ten words and more than 0.6 of its characters are upper case (that is,
  \<open>5 * upper > 3 * length\<close>), and false otherwise. It is false for the empty string.
\<close>

theorem is_likely_heading_rules:
  "(\<exists>b. is_likely_heading text = Inr b) \<and>
   (200 < length text \<longrightarrow> is_likely_heading text = Inr False) \<and>
   (length text \<le> 200 \<and> (\<exists>pattern\<in>set heading_patterns. re_match pattern (strip text))
      \<longrightarrow> is_likely_heading text = Inr True) \<and>
   (length text \<le> 200 \<and> length (split_ws text) \<le> 10 \<and>
      3 * length text < 5 * length (filter isupper text)
      \<longrightarrow> is_likely_heading text = Inr True) \<and>
   (length text \<le> 200 \<and> \<not> (\<exists>pattern\<in>set heading_patterns. re_match pattern (strip text)) \<and>
      \<not> (length (split_ws text) \<le> 10 \<and> 3 * length text < 5 * length (filter isupper text))
      \<longrightarrow> is_likely_heading text = Inr False) \<and>
   is_likely_heading [] = Inr False"
proof -
  have e: "is_likely_heading [] = Inr False"
    by code_simp
  from e show ?thesis
    by (auto simp: is_likely_heading_total is_heading_iff)
qed

theorem is_likely_heading_rules_witness:
  "is_likely_heading '''' = Inr False \<and>
   is_likely_heading ''INTRODUCTION'' = Inr True \<and>
   is_likely_heading ''1. Overview'' = Inr True \<and>
   is_likely_heading ''This is a normal sentence describing results.'' = Inr False \<and>
   is_likely_heading ''FAQ'' = Inr True \<and>
   is_likely_heading (replicate 201 CHR ''A'') = Inr False"
proof -
  have a: "length ''INTRODUCTION'' \<le> 200 \<and>
      (\<exists>pattern\<in>set heading_patterns. re_match pattern (strip ''INTRODUCTION''))"
    by code_simp
  have b: "length ''1. Overview'' \<le> 200 \<and>
      (\<exists>pattern\<in>set heading_patterns. re_match pattern (strip ''1. Overview''))"
    by code_simp
  have c: "length ''This is a normal sentence describing results.'' \<le> 200 \<and>
      \<not> (\<exists>pattern\<in>set heading_patterns.
            re_match pattern (strip ''This is a normal sentence describing results.'')) \<and>
      \<not> (length (split_ws ''This is a normal sentence describing results.'') \<le> 10 \<and>
         3 * length ''This is a normal sentence describing results.''
           < 5 * length (filter isupper ''This is a normal sentence describing results.''))"
    by code_simp
  have d: "length ''FAQ'' \<le> 200 \<and> length (split_ws ''FAQ'') \<le> 10 \<and>
      3 * length ''FAQ'' < 5 * length (filter isupper ''FAQ'')"
    by code_simp
  have e: "200 < length (replicate 201 CHR ''A'')" by simp
  from is_likely_heading_rules[of "''INTRODUCTION''"] a
  have 1: "is_likely_heading ''INTRODUCTION'' = Inr True" by blast
  from is_likely_heading_rules[of "''1. Overview''"] b
  have 2: "is_likely_heading ''1. Overview'' = Inr True" by blast
  from is_likely_heading_rules[of "''This is a normal sentence describing results.''"] c
  have 3: "is_likely_heading ''This is a normal sentence describing results.'' = Inr False" by blast
  from is_likely_heading_rules[of "''FAQ''"] d
  have 4: "is_likely_heading ''FAQ'' = Inr True" by blast
  from is_likely_heading_rules[of "replicate 201 CHR ''A''"] e
  have 5: "is_likely_heading (replicate 201 CHR ''A'') = Inr False" by blast
  from is_likely_heading_rules[of "''''"]
  have 6: "is_likely_heading '''' = Inr False" by blast
  from 1 2 3 4 5 6 show ?thesis by blast
qed

text \<open>
  C7. The text of the end-to-end scenario, as the only page of a document without outline,
  is split into the section INTRODUCTION with the first body paragraph and the section
  METHODS with the second; \<^verbatim>\<open>split_by_toc\<close> falls back to the same result.
\<close>

theorem end_to_end_two_sections:
  "split_by_paragraphs doc_no_outline =
     Inr [\<lparr>title = ''INTRODUCTION'', level = 0, start_page = None, end_page = None,
            content = ''This is body text about the topic.''\<rparr>,
          \<lparr>title = ''METHODS'', level = 0, start_page = None, end_page = None,
            content = ''We used method X.''\<rparr>] \<and>
   split_by_toc doc_no_outline = split_by_paragraphs doc_no_outline"
  by code_simp

text \<open>
  C6. Where no paragraph of the text is classified as a heading and some paragraph is not
  blank, \<^verbatim>\<open>split_by_paragraphs\<close> returns exactly one section, titled \<^verbatim>\<open>Section 1\<close>, whose
  content is the trimmed join of all non-blank paragraphs. More generally, the non-blank
  paragraphs before the first heading make the first section, under that title. Every
  section of \<^verbatim>\<open>split_by_paragraphs\<close> has level 0 and neither \<^verbatim>\<open>start_page\<close> nor
  \<^verbatim>\<open>end_page\<close>.
\<close>

theorem split_by_paragraphs_untitled:
  "((\<forall>p\<in>set (paragraphs_of self). strip p \<noteq> [] \<longrightarrow> \<not> is_heading (strip p)) \<and>
    (\<exists>p\<in>set (paragraphs_of self). strip p \<noteq> [])
      \<longrightarrow> split_by_paragraphs self = Inr [untitled_section (paragraphs_of self)]) \<and>
   ((\<forall>p\<in>set pre. strip p \<noteq> [] \<longrightarrow> \<not> is_heading (strip p)) \<and>
    (\<exists>p\<in>set pre. strip p \<noteq> []) \<and> strip h \<noteq> [] \<and> is_heading (strip h) \<and>
    paragraphs_of self = pre @ h # rest
      \<longrightarrow> (\<exists>secs. split_by_paragraphs self = Inr (untitled_section pre # secs))) \<and>
   (\<exists>secs. split_by_paragraphs self = Inr secs \<and>
      (\<forall>s\<in>set secs. level s = 0 \<and> start_page s = None \<and> end_page s = None))"
proof (intro conjI impI)
  assume a: "(\<forall>p\<in>set (paragraphs_of self). strip p \<noteq> [] \<longrightarrow> \<not> is_heading (strip p)) \<and>
    (\<exists>p\<in>set (paragraphs_of self). strip p \<noteq> [])"
  then have b: "\<forall>p\<in>set (paragraphs_of self). strip p \<noteq> [] \<longrightarrow> \<not> is_heading (strip p)"
    and n: "\<exists>p\<in>set (paragraphs_of self). strip p \<noteq> []" by blast+
  let ?st = "para_init\<lparr>current_section := body_paragraphs (paragraphs_of self)\<rparr>"
  have 1: "foldl para_step para_init (paragraphs_of self) = ?st"
    using foldl_body[OF b, of para_init] by (simp add: para_init_def)
  have "para_finish ?st = [untitled_section (paragraphs_of self)]"
    using body_paragraphs_nonempty[OF n]
    by (simp add: para_finish_def flush_untitled) (simp add: para_init_def)
  then show "split_by_paragraphs self = Inr [untitled_section (paragraphs_of self)]"
    by (simp add: split_by_paragraphs_foldl 1)
next
  assume a: "(\<forall>p\<in>set pre. strip p \<noteq> [] \<longrightarrow> \<not> is_heading (strip p)) \<and>
    (\<exists>p\<in>set pre. strip p \<noteq> []) \<and> strip h \<noteq> [] \<and> is_heading (strip h) \<and>
    paragraphs_of self = pre @ h # rest"
  then have "\<exists>secs. para_finish (foldl para_step para_init (pre @ h # rest)) = untitled_section pre # secs"
    by (intro untitled_first) blast+
  with a show "\<exists>secs. split_by_paragraphs self = Inr (untitled_section pre # secs)"
    by (simp add: split_by_paragraphs_foldl)
next
  from split_by_paragraphs_inv[of self]
  show "\<exists>secs. split_by_paragraphs self = Inr secs \<and>
      (\<forall>s\<in>set secs. level s = 0 \<and> start_page s = None \<and> end_page s = None)"
    by blast
qed

theorem split_by_paragraphs_untitled_witness:
  "paragraphs_of doc_plain =
     [''First paragraph of plain text.'', ''Second paragraph.'', ''Third paragraph on page two.''] \<and>
   split_by_paragraphs doc_plain =
     Inr [\<lparr>title = ''Section 1'', level = 0, start_page = None, end_page = None,
            content = ''First paragraph of plain text.'' @ [newline, newline] @ ''Second paragraph.''
                      @ [newline, newline] @ ''Third paragraph on page two.''\<rparr>] \<and>
   paragraphs_of doc_headings_only =
     [''Preface text before any heading.''] @ ''INTRODUCTION'' # [''OVERVIEW'', ''Body text here.'', ''APPENDIX''] \<and>
   (\<exists>secs. split_by_paragraphs doc_headings_only =
      Inr (\<lparr>title = ''Section 1'', level = 0, start_page = None, end_page = None,
             content = ''Preface text before any heading.''\<rparr> # secs))"
proof -
  have p1: "paragraphs_of doc_plain =
     [''First paragraph of plain text.'', ''Second paragraph.'', ''Third paragraph on page two.'']"
    by code_simp
  have h1: "(\<forall>p\<in>set (paragraphs_of doc_plain). strip p \<noteq> [] \<longrightarrow> \<not> is_heading (strip p)) \<and>
    (\<exists>p\<in>set (paragraphs_of doc_plain). strip p \<noteq> [])"
    by code_simp
  have u1: "untitled_section (paragraphs_of doc_plain) =
     \<lparr>title = ''Section 1'', level = 0, start_page = None, end_page = None,
            content = ''First paragraph of plain text.'' @ [newline, newline] @ ''Second paragraph.''
                      @ [newline, newline] @ ''Third paragraph on page two.''\<rparr>"
    by code_simp
  have p2: "paragraphs_of doc_headings_only =
     [''Preface text before any heading.''] @ ''INTRODUCTION'' # [''OVERVIEW'', ''Body text here.'', ''APPENDIX'']"
    by code_simp
  have h2: "(\<forall>p\<in>set [''Preface text before any heading.'']. strip p \<noteq> [] \<longrightarrow> \<not> is_heading (strip p)) \<and>
    (\<exists>p\<in>set [''Preface text before any heading.'']. strip p \<noteq> []) \<and>
    strip ''INTRODUCTION'' \<noteq> [] \<and> is_heading (strip ''INTRODUCTION'')"
    by code_simp
  have u2: "untitled_section [''Preface text before any heading.''] =
     \<lparr>title = ''Section 1'', level = 0, start_page = None, end_page = None,
        content = ''Preface text before any heading.''\<rparr>"
    by code_simp
  from split_by_paragraphs_untitled[of doc_plain] h1 u1
  have r1: "split_by_paragraphs doc_plain =
     Inr [\<lparr>title = ''Section 1'', level = 0, start_page = None, end_page = None,
            content = ''First paragraph of plain text.'' @ [newline, newline] @ ''Second paragraph.''
                      @ [newline, newline] @ ''Third paragraph on page two.''\<rparr>]"
    by simp
  from split_by_paragraphs_untitled[of doc_headings_only "[''Preface text before any heading.'']"
      "''INTRODUCTION''" "[''OVERVIEW'', ''Body text here.'', ''APPENDIX'']"] h2 p2
  have "\<exists>secs. split_by_paragraphs doc_headings_only =
      Inr (untitled_section [''Preface text before any heading.''] # secs)"
    by blast
  then have r2: "\<exists>secs. split_by_paragraphs doc_headings_only =
      Inr (\<lparr>title = ''Section 1'', level = 0, start_page = None, end_page = None,
             content = ''Preface text before any heading.''\<rparr> # secs)"
    by (simp only: u2)
  from p1 r1 p2 r2 show ?thesis by blast
qed

text \<open>
  C10. Every section of \<^verbatim>\<open>split_by_paragraphs\<close> has a non-empty content. A heading that
  is followed by another heading, with nothing but blank paragraphs between them, leaves
  no trace: the result is the one for the text without it. The same holds for a heading
  that is the last paragraph of the text.
\<close>

theorem split_by_paragraphs_content:
  "(\<exists>secs. split_by_paragraphs self = Inr secs \<and> (\<forall>s\<in>set secs. content s \<noteq> [])) \<and>
   (strip h \<noteq> [] \<and> is_heading (strip h) \<and> strip h' \<noteq> [] \<and> is_heading (strip h') \<and>
    (\<forall>p\<in>set blanks. strip p = []) \<and>
    paragraphs_of self = before @ h # blanks @ h' # after \<and>
    paragraphs_of self' = before @ h' # after
      \<longrightarrow> split_by_paragraphs self = split_by_paragraphs self') \<and>
   (strip h \<noteq> [] \<and> is_heading (strip h) \<and>
    paragraphs_of self = before @ [h] \<and> paragraphs_of self' = before
      \<longrightarrow> split_by_paragraphs self = split_by_paragraphs self')"
proof (intro conjI impI)
  from split_by_paragraphs_inv[of self]
  show "\<exists>secs. split_by_paragraphs self = Inr secs \<and> (\<forall>s\<in>set secs. content s \<noteq> [])"
    by blast
next
  assume a: "strip h \<noteq> [] \<and> is_heading (strip h) \<and> strip h' \<noteq> [] \<and> is_heading (strip h') \<and>
    (\<forall>p\<in>set blanks. strip p = []) \<and>
    paragraphs_of self = before @ h # blanks @ h' # after \<and>
    paragraphs_of self' = before @ h' # after"
  then have b: "\<forall>p\<in>set blanks. strip p = []" by blast
  from a show "split_by_paragraphs self = split_by_paragraphs self'"
    by (simp add: split_by_paragraphs_foldl foldl_blank[OF b] para_step_heading_twice)
next
  assume a: "strip h \<noteq> [] \<and> is_heading (strip h) \<and>
    paragraphs_of self = before @ [h] \<and> paragraphs_of self' = before"
  then show "split_by_paragraphs self = split_by_paragraphs self'"
    by (simp add: split_by_paragraphs_foldl para_finish_heading)
qed

theorem split_by_paragraphs_content_witness:
  "paragraphs_of doc_headings_only =
     [''Preface text before any heading.'', ''INTRODUCTION'', ''OVERVIEW'', ''Body text here.''] @ [''APPENDIX''] \<and>
   paragraphs_of doc_no_appendix =
     [''Preface text before any heading.''] @ ''INTRODUCTION'' # [] @ ''OVERVIEW'' # [''Body text here.''] \<and>
   paragraphs_of doc_overview_only =
     [''Preface text before any heading.''] @ ''OVERVIEW'' # [''Body text here.''] \<and>
   split_by_paragraphs doc_headings_only = split_by_paragraphs doc_no_appendix \<and>
   split_by_paragraphs doc_no_appendix = split_by_paragraphs doc_overview_only \<and>
   map title (projr (split_by_paragraphs doc_headings_only)) = [''Section 1'', ''OVERVIEW''] \<and>
   map content (projr (split_by_paragraphs doc_headings_only)) =
     [''Preface text before any heading.'', ''Body text here.'']"
proof -
  have p1: "paragraphs_of doc_headings_only =
     [''Preface text before any heading.'', ''INTRODUCTION'', ''OVERVIEW'', ''Body text here.''] @ [''APPENDIX'']"
    by code_simp
  have p2: "paragraphs_of doc_no_appendix =
     [''Preface text before any heading.'', ''INTRODUCTION'', ''OVERVIEW'', ''Body text here.'']"
    by code_simp
  have p3: "paragraphs_of doc_overview_only =
     [''Preface text before any heading.''] @ ''OVERVIEW'' # [''Body text here.'']"
    by code_simp
  have p2': "paragraphs_of doc_no_appendix =
     [''Preface text before any heading.''] @ ''INTRODUCTION'' # [] @ ''OVERVIEW'' # [''Body text here.'']"
    using p2 by simp
  have h: "strip ''INTRODUCTION'' \<noteq> [] \<and> is_heading (strip ''INTRODUCTION'') \<and>
           strip ''OVERVIEW'' \<noteq> [] \<and> is_heading (strip ''OVERVIEW'') \<and>
           strip ''APPENDIX'' \<noteq> [] \<and> is_heading (strip ''APPENDIX'')"
    by code_simp
  have b: "\<forall>p\<in>set ([] :: string list). strip p = []" by simp
  from split_by_paragraphs_content[of doc_headings_only "''APPENDIX''" "''APPENDIX''" "[]"
      "[''Preface text before any heading.'', ''INTRODUCTION'', ''OVERVIEW'', ''Body text here.'']" "[]"
      doc_no_appendix] h p1 p2
  have e1: "split_by_paragraphs doc_headings_only = split_by_paragraphs doc_no_appendix" by blast
  from split_by_paragraphs_content[of doc_no_appendix "''INTRODUCTION''" "''OVERVIEW''" "[]"
      "[''Preface text before any heading.'']" "[''Body text here.'']" doc_overview_only] h b p2' p3
  have e2: "split_by_paragraphs doc_no_appendix = split_by_paragraphs doc_overview_only" by blast
  have t: "map title (projr (split_by_paragraphs doc_headings_only)) = [''Section 1'', ''OVERVIEW'']"
    by code_simp
  have c: "map content (projr (split_by_paragraphs doc_headings_only)) =
     [''Preface text before any heading.'', ''Body text here.'']"
    by code_simp
  from p1 p2' p3 e1 e2 t c show ?thesis by blast
qed

text \<open>
  C3. The candidates of \<^verbatim>\<open>_extract_key_sentences\<close> are the first 50 trimmed pieces of
  more than 20 characters that the separator (a run of \<^verbatim>\<open>.\<close>, \<^verbatim>\<open>!\<close> or \<^verbatim>\<open>?\<close>, then
  whitespace) leaves. The score of a sentence is 2 for a digit, plus 1 for a quote
  character, plus the number of keywords that occur in the lower-cased sentence, plus 1
  for a length strictly between 50 and 200. For \<open>max_sentences \<ge> 0\<close> the result has at
  most \<open>max_sentences\<close> sentences, each a candidate of positive score, in non-increasing
  order of score; the returned sentences of one score are an initial segment of the
  candidates of that score, in the order of the text. The empty text gives no sentence.
\<close>

theorem extract_key_sentences_ranking:
  assumes "0 \<le> max_sentences"
  shows
   "length (key_sentence_candidates text) \<le> 50 \<and>
    (\<forall>c\<in>set (key_sentence_candidates text).
        20 < length c \<and> (\<exists>piece\<in>set (re_split sentence_sep text). c = strip piece)) \<and>
    (\<forall>s. sentence_score s =
        (if \<exists>c\<in>set s. isdigit c then 2 else 0) +
        (if double_quote \<in> set s \<or> single_quote \<in> set s then 1 else 0) +
        int (card {w \<in> set important_words. \<exists>pre suf. lower s = pre @ w @ suf}) +
        (if 50 < length s \<and> length s < 200 then 1 else 0)) \<and>
    length (extract_key_sentences text max_sentences) \<le> nat max_sentences \<and>
    (\<forall>s\<in>set (extract_key_sentences text max_sentences).
        s \<in> set (key_sentence_candidates text) \<and> 0 < sentence_score s) \<and>
    sorted_wrt (\<lambda>a b. sentence_score b \<le> sentence_score a) (extract_key_sentences text max_sentences) \<and>
    (\<forall>k. prefix (filter (\<lambda>s. sentence_score s = k) (extract_key_sentences text max_sentences))
                (filter (\<lambda>s. sentence_score s = k) (key_sentence_candidates text))) \<and>
    extract_key_sentences [] max_sentences = []"
proof -
  let ?cands = "key_sentence_candidates text"
  let ?res = "extract_key_sentences text max_sentences"
  have eq: "?res = filter (\<lambda>s. 0 < sentence_score s) (take (nat max_sentences) (ranked ?cands))"
    by (rule extract_key_sentences_ranked_eq[OF assms])
  have 1: "length ?cands \<le> 50" by (simp add: key_sentence_candidates_def)
  have 2: "\<forall>c\<in>set ?cands. 20 < length c \<and> (\<exists>piece\<in>set (re_split sentence_sep text). c = strip piece)"
  proof
    fix c assume "c \<in> set ?cands"
    then have "c \<in> set (map strip (filter (\<lambda>s. 20 < length (strip s)) (re_split sentence_sep text)))"
      unfolding key_sentence_candidates_def by (rule in_set_takeD)
    then show "20 < length c \<and> (\<exists>piece\<in>set (re_split sentence_sep text). c = strip piece)"
      by auto
  qed
  have 3: "\<forall>s. sentence_score s =
        (if \<exists>c\<in>set s. isdigit c then 2 else 0) +
        (if double_quote \<in> set s \<or> single_quote \<in> set s then 1 else 0) +
        int (card {w \<in> set important_words. \<exists>pre suf. lower s = pre @ w @ suf}) +
        (if 50 < length s \<and> length s < 200 then 1 else 0)"
    by (simp only: sentence_score_def re_search_digits keyword_count contains_iff) simp
  have "length ?res \<le> length (take (nat max_sentences) (ranked ?cands))"
    unfolding eq by (rule length_filter_le)
  then have 4: "length ?res \<le> nat max_sentences" by simp
  have 5: "\<forall>s\<in>set ?res. s \<in> set ?cands \<and> 0 < sentence_score s"
  proof
    fix s assume "s \<in> set ?res"
    then have "s \<in> set (take (nat max_sentences) (ranked ?cands))" and p: "0 < sentence_score s"
      unfolding eq by simp_all
    then have "s \<in> set (ranked ?cands)" by (auto dest: in_set_takeD)
    then show "s \<in> set ?cands \<and> 0 < sentence_score s" using p by (simp add: ranked_def)
  qed
  have 6: "sorted_wrt (\<lambda>a b. sentence_score b \<le> sentence_score a) ?res"
    unfolding eq by (intro sorted_wrt_filter sorted_wrt_take' ranked_sorted)
  have 7: "\<forall>k. prefix (filter (\<lambda>s. sentence_score s = k) ?res)
                (filter (\<lambda>s. sentence_score s = k) ?cands)"
  proof
    fix k
    have a: "filter (\<lambda>s. sentence_score s = k) ?res =
          filter (\<lambda>s. 0 < k \<and> sentence_score s = k) (take (nat max_sentences) (ranked ?cands))"
      unfolding eq by (auto intro: filter_cong)
    show "prefix (filter (\<lambda>s. sentence_score s = k) ?res) (filter (\<lambda>s. sentence_score s = k) ?cands)"
    proof (cases "0 < k")
      case True
      have "prefix (filter (\<lambda>s. sentence_score s = k) (take (nat max_sentences) (ranked ?cands)))
                   (filter (\<lambda>s. sentence_score s = k) (ranked ?cands))"
        by (intro filter_mono_prefix take_is_prefix)
      then show ?thesis using True by (simp add: a ranked_stable)
    next
      case False
      then show ?thesis by (simp add: a)
    qed
  qed
  have 8: "extract_key_sentences [] max_sentences = []"
    by (simp add: extract_key_sentences_def re_split_def strip_def)
  from 1 2 3 4 5 6 7 8 show ?thesis by blast
qed

theorem extract_key_sentences_ranking_witness:
  "(0::int) \<le> 2 \<and>
   map sentence_score (key_sentence_candidates ranking_example) = [5, 1, 1, 0] \<and>
   extract_key_sentences ranking_example 2 =
     [''We found 3 results in the main study of this topic'',
      ''The weather was nice and nothing else happened today''] \<and>
   length (extract_key_sentences ranking_example 2) \<le> nat 2 \<and>
   extract_key_sentences [] 2 = []"
proof -
  have h: "(0::int) \<le> 2" by simp
  have a: "map sentence_score (key_sentence_candidates ranking_example) = [5, 1, 1, 0]"
    by code_simp
  have b: "extract_key_sentences ranking_example 2 =
     [''We found 3 results in the main study of this topic'',
      ''The weather was nice and nothing else happened today'']"
    by code_simp
  from extract_key_sentences_ranking[OF h, of ranking_example] a b h show ?thesis by blast
qed

text \<open>
  C9. The summary depends on the splitter only through its number of pages: for the same
  list of sections, two splitters with the same number of pages give the same result,
  character for character (or the same error).
\<close>

theorem create_document_summary_pure:
  assumes "total_pages self = total_pages self'"
  shows "create_document_summary self sections' = create_document_summary self' sections'"
  unfolding create_document_summary_def assms by (rule refl)

theorem create_document_summary_pure_witness:
  "total_pages doc_three_entries = total_pages doc_twelve_blank \<and>
   create_document_summary doc_three_entries summary_example =
     create_document_summary doc_twelve_blank summary_example \<and>
   create_document_summary doc_twelve_blank summary_example =
     Inr (join [newline]
       ([''# DOCUMENT STRUCTURE SUMMARY'', ''Total Sections: 1'', ''Total Pages: 12'' @ [newline],
         ''## TABLE OF CONTENTS'', ''  1. Intro [p.1-5]'',
         [newline] @ ''## SECTION SUMMARIES'' @ [newline],
         ''### Section 1: Intro'', ''**Location:** Pages 1-5'',
         ''**Length:** 8 words, 37 characters'',
         ''**Preview:** We found 3 results in the main study.'',
         ''**Key Points:**'', ''- We found 3 results in the main study.'', []] @ how_to_use))"
proof -
  have h: "total_pages doc_three_entries = total_pages doc_twelve_blank" by code_simp
  have e: "create_document_summary doc_twelve_blank summary_example =
     Inr (join [newline]
       ([''# DOCUMENT STRUCTURE SUMMARY'', ''Total Sections: 1'', ''Total Pages: 12'' @ [newline],
         ''## TABLE OF CONTENTS'', ''  1. Intro [p.1-5]'',
         [newline] @ ''## SECTION SUMMARIES'' @ [newline],
         ''### Section 1: Intro'', ''**Location:** Pages 1-5'',
         ''**Length:** 8 words, 37 characters'',
         ''**Preview:** We found 3 results in the main study.'',
         ''**Key Points:**'', ''- We found 3 results in the main study.'', []] @ how_to_use))"
    by code_simp
  from create_document_summary_pure[OF h, of summary_example] h e show ?thesis by simp
qed

end
